theory Spec2Isabelle
  imports Complex_Main
begin

section \<open>Conventions of the embedding\<close>

text \<open>
  JavaScript numbers are modelled as exact reals, so rounding error, signed zeros and
  non-finite inputs are outside the model; the one exception is the slope clamp, whose
  arithmetic is rounded to double precision because its result depends on it. Where the
  source itself produces a value that is not a real number (a read past the end of an array
  yields \<open>undefined\<close>, zero divided by zero yields \<open>NaN\<close>), the model makes this
  explicit with an \<open>option\<close> whose \<open>None\<close> stands for that value. Every
  \<open>throw\<close> of the source is a value \<open>Inl e\<close> of a sum type.
\<close>

datatype error =
    InsufficientSpatialData nat
  | GridSizeMismatch nat nat
  | NoLeftOrRightLap
  | WindowTooSmall
  | SingularMatrix
  | TypeError

text \<open>The remainder operator \<open>%\<close> of JavaScript truncates: its sign follows the dividend.\<close>

definition js_rem :: "int \<Rightarrow> int \<Rightarrow> int" where
  "js_rem a n = (if a < 0 then - ((- a) mod n) else a mod n)"

text \<open>\<open>values[index]\<close> for an integer index: \<open>undefined\<close> outside the array.\<close>

definition js_at :: "'a list \<Rightarrow> int \<Rightarrow> 'a option" where
  "js_at xs i = (if 0 \<le> i \<and> i < int (length xs) then Some (xs ! nat i) else None)"

text \<open>\<open>Math.round\<close> rounds halves towards plus infinity.\<close>

definition Math_round :: "real \<Rightarrow> int" where
  "Math_round v = \<lfloor>v + 1 / 2\<rfloor>"

text \<open>
  \<open>Math.atan2(y, x)\<close> on reals (no signed zeros): the angle of the vector \<open>(x, y)\<close>
  in \<open>(-\<pi>, \<pi>]\<close>, and 0 for the zero vector.
\<close>

definition Math_atan2 :: "real \<Rightarrow> real \<Rightarrow> real" where
  "Math_atan2 b a =
     (if a > 0 then arctan (b / a)
      else if a < 0 then (if b \<ge> 0 then arctan (b / a) + pi else arctan (b / a) - pi)
      else if b > 0 then pi / 2
      else if b < 0 then - (pi / 2)
      else 0)"

section \<open>Resampler (resampler.js)\<close>

record sample =
  distance :: real
  sample_x :: "real option"
  sample_y :: "real option"
  sample_z :: "real option"

definition getPlanarY :: "sample \<Rightarrow> real option" where
  "getPlanarY s = (if sample_z s \<noteq> None then sample_z s else sample_y s)"

text \<open>The loop of the source copies the \<open>distance\<close> field of every sample.\<close>

definition calculateCumulativeDistance :: "sample list \<Rightarrow> real list" where
  "calculateCumulativeDistance samples = map distance samples"

definition normalizeToProgress :: "real list \<Rightarrow> real list" where
  "normalizeToProgress cumulativeDistance =
     (if length cumulativeDistance = 0 then []
      else
        let minDistance = cumulativeDistance ! 0;
            maxDistance = cumulativeDistance ! (length cumulativeDistance - 1);
            span = maxDistance - minDistance
        in if span = 0 then replicate (length cumulativeDistance) 0
           else map (\<lambda>d. (d - minDistance) / span) cumulativeDistance)"

definition lerp :: "real \<Rightarrow> real \<Rightarrow> real \<Rightarrow> real" where
  "lerp a b t = a + (b - a) * t"

function binarySearchGE_loop :: "real list \<Rightarrow> real \<Rightarrow> nat \<Rightarrow> nat \<Rightarrow> nat" where
  "binarySearchGE_loop arr target left right =
     (if left < right then
        let mid = (left + right) div 2
        in if arr ! mid < target then binarySearchGE_loop arr target (mid + 1) right
           else binarySearchGE_loop arr target left mid
      else left)"
  by pat_completeness auto
termination
  by (relation "measure (\<lambda>(arr, target, left, right). right - left)") auto

declare binarySearchGE_loop.simps [simp del]

definition binarySearchGE :: "real list \<Rightarrow> real \<Rightarrow> nat" where
  "binarySearchGE arr target = binarySearchGE_loop arr target 0 (length arr)"

record grid_point =
  progress :: "real option"
  point_x :: real
  point_y :: real

text \<open>
  \<open>i / (gridSize - 1)\<close> for a loop index \<open>i < gridSize\<close>. With \<open>gridSize = 1\<close> the
  only index is 0 and the quotient is \<open>0 / 0\<close>, that is \<open>NaN\<close>.
\<close>

definition targetProgress :: "nat \<Rightarrow> nat \<Rightarrow> real option" where
  "targetProgress gridSize i =
     (if gridSize = 1 then None else Some (real i / (real gridSize - 1)))"

definition isValidSample :: "sample \<Rightarrow> bool" where
  "isValidSample s \<longleftrightarrow> sample_x s \<noteq> None \<and> getPlanarY s \<noteq> None"

text \<open>
  One iteration of the grid loop. The samples passed in are the filtered ones, so their
  coordinates are present. For a \<open>NaN\<close> target every comparison \<open>arr[mid] < target\<close> of
  the binary search is false, so \<open>rightIdx\<close> is 0 and the first sample is used.
\<close>

definition gridPoint :: "sample list \<Rightarrow> real list \<Rightarrow> nat \<Rightarrow> nat \<Rightarrow> grid_point" where
  "gridPoint validSamples progressArr gridSize i =
     (case targetProgress gridSize i of
        None \<Rightarrow>
          \<lparr>progress = None,
           point_x = the (sample_x (validSamples ! 0)),
           point_y = the (getPlanarY (validSamples ! 0))\<rparr>
      | Some tp \<Rightarrow>
          let rightIdx = binarySearchGE progressArr tp
          in if rightIdx = 0 then
               \<lparr>progress = Some tp,
                point_x = the (sample_x (validSamples ! 0)),
                point_y = the (getPlanarY (validSamples ! 0))\<rparr>
             else if rightIdx \<ge> length progressArr then
               let last = length validSamples - 1
               in \<lparr>progress = Some tp,
                   point_x = the (sample_x (validSamples ! last)),
                   point_y = the (getPlanarY (validSamples ! last))\<rparr>
             else
               let leftIdx = rightIdx - 1;
                   p0 = progressArr ! leftIdx;
                   p1 = progressArr ! rightIdx;
                   span = p1 - p0;
                   t = (if span > 0 then (tp - p0) / span else 0)
               in \<lparr>progress = Some tp,
                   point_x = lerp (the (sample_x (validSamples ! leftIdx)))
                                  (the (sample_x (validSamples ! rightIdx))) t,
                   point_y = lerp (the (getPlanarY (validSamples ! leftIdx)))
                                  (the (getPlanarY (validSamples ! rightIdx))) t\<rparr>)"

definition resampleOnGrid :: "sample list \<Rightarrow> nat \<Rightarrow> error + grid_point list" where
  "resampleOnGrid samples gridSize =
     (let validSamples = filter isValidSample samples
      in if length validSamples < 2 then Inl (InsufficientSpatialData (length validSamples))
         else
           let cumulative = calculateCumulativeDistance validSamples;
               progressArr = normalizeToProgress cumulative
           in Inr (map (gridPoint validSamples progressArr gridSize) [0..<gridSize]))"

definition computeHeadings :: "grid_point list \<Rightarrow> real list" where
  "computeHeadings grid =
     (let n = length grid
      in map (\<lambda>i.
           let prev = grid ! ((i + n - 1) mod n);
               next = grid ! ((i + 1) mod n);
               dx = point_x next - point_x prev;
               dy = point_y next - point_y prev
           in Math_atan2 dy dx) [0..<n])"

function wrapAngle_up :: "real \<Rightarrow> real" where
  "wrapAngle_up result = (if result \<le> - pi then wrapAngle_up (result + pi * 2) else result)"
  by pat_completeness auto
termination
proof (relation "measure (\<lambda>r. nat (\<lceil>(- pi - r) / (2 * pi)\<rceil> + 1))")
  show "wf (measure (\<lambda>r. nat (\<lceil>(- pi - r) / (2 * pi)\<rceil> + 1)))" by simp
next
  fix result :: real
  assume le: "result \<le> - pi"
  have eq: "(- pi - (result + pi * 2)) / (2 * pi) = (- pi - result) / (2 * pi) - 1"
    by (simp add: field_simps)
  have "0 \<le> (- pi - result) / (2 * pi)"
    using le by simp
  then have nonneg: "0 \<le> \<lceil>(- pi - result) / (2 * pi)\<rceil>"
    by linarith
  have step: "\<lceil>(- pi - (result + pi * 2)) / (2 * pi)\<rceil> = \<lceil>(- pi - result) / (2 * pi)\<rceil> - 1"
    by (simp only: eq ceiling_diff_one)
  show "(result + pi * 2, result) \<in> measure (\<lambda>r. nat (\<lceil>(- pi - r) / (2 * pi)\<rceil> + 1))"
    unfolding in_measure step using nonneg by linarith
qed

declare wrapAngle_up.simps [simp del]

function wrapAngle_down :: "real \<Rightarrow> real" where
  "wrapAngle_down result = (if result > pi then wrapAngle_down (result - pi * 2) else result)"
  by pat_completeness auto
termination
proof (relation "measure (\<lambda>r. nat (\<lceil>(r - pi) / (2 * pi)\<rceil> + 1))")
  show "wf (measure (\<lambda>r. nat (\<lceil>(r - pi) / (2 * pi)\<rceil> + 1)))" by simp
next
  fix result :: real
  assume gt: "pi < result"
  have eq: "(result - pi * 2 - pi) / (2 * pi) = (result - pi) / (2 * pi) - 1"
    by (simp add: field_simps)
  have "0 \<le> (result - pi) / (2 * pi)"
    using gt by simp
  then have nonneg: "0 \<le> \<lceil>(result - pi) / (2 * pi)\<rceil>"
    by linarith
  have step: "\<lceil>(result - pi * 2 - pi) / (2 * pi)\<rceil> = \<lceil>(result - pi) / (2 * pi)\<rceil> - 1"
    by (simp only: eq ceiling_diff_one)
  show "(result - pi * 2, result) \<in> measure (\<lambda>r. nat (\<lceil>(r - pi) / (2 * pi)\<rceil> + 1))"
    unfolding in_measure step using nonneg by linarith
qed

declare wrapAngle_down.simps [simp del]

definition wrapAngle :: "real \<Rightarrow> real" where
  "wrapAngle angle = wrapAngle_down (wrapAngle_up angle)"

definition medianAngle :: "real list \<Rightarrow> real" where
  "medianAngle vals =
     (if length vals = 0 then 0
      else
        let sorted = sort vals;
            mid = length sorted div 2
        in if length sorted mod 2 = 1 then sorted ! mid
           else (sorted ! (mid - 1) + sorted ! mid) / 2)"

definition rotateGrid :: "grid_point list \<Rightarrow> real \<Rightarrow> grid_point list" where
  "rotateGrid grid angle =
     (if \<bar>angle\<bar> < 1 / 10 ^ 6 then grid
      else
        let cx = foldl (\<lambda>acc p. acc + point_x p) 0 grid / real (length grid);
            cy = foldl (\<lambda>acc p. acc + point_y p) 0 grid / real (length grid)
        in map (\<lambda>p.
             let dx = point_x p - cx;
                 dy = point_y p - cy
             in p\<lparr>point_x := cx + dx * cos angle - dy * sin angle,
                  point_y := cy + dx * sin angle + dy * cos angle\<rparr>) grid)"


datatype role = Left | Center | Right

definition roleName :: "role \<Rightarrow> string" where
  "roleName r = (case r of Left \<Rightarrow> ''left'' | Center \<Rightarrow> ''center'' | Right \<Rightarrow> ''right'')"

record classified_lap =
  lap_type :: role
  lap_samples :: "sample list"
  lap_filename :: "string option"

text \<open>\<open>filename || type\<close>: a missing or empty file name falls back to the role.\<close>

definition offsetKey :: "classified_lap \<Rightarrow> string" where
  "offsetKey cl =
     (case lap_filename cl of
        None \<Rightarrow> roleName (lap_type cl)
      | Some f \<Rightarrow> if f = [] then roleName (lap_type cl) else f)"

record resample_options =
  opt_sampleCount :: "nat option"
  opt_spacingMeters :: real
  opt_alignHeading :: bool

definition lapLengths :: "classified_lap list \<Rightarrow> real list" where
  "lapLengths classifiedLaps =
     concat (map (\<lambda>cl.
       let validSamples = filter isValidSample (lap_samples cl)
       in if length validSamples < 2 then []
          else
            let cumulative = calculateCumulativeDistance validSamples;
                len = cumulative ! (length cumulative - 1) - cumulative ! 0
            in if len > 0 then [len] else []) classifiedLaps)"

definition averageLength :: "classified_lap list \<Rightarrow> real option" where
  "averageLength classifiedLaps =
     (let lens = lapLengths classifiedLaps
      in if length lens = 0 then None
         else Some (foldl (\<lambda>sum len. sum + len) 0 lens / real (length lens)))"

text \<open>
  \<open>explicitSampleCount ? explicitSampleCount : Math.max(200, Math.round(...)) || 1024\<close>;
  an omitted or zero explicit count is falsy.
\<close>

definition resolveSampleCount :: "nat option \<Rightarrow> real option \<Rightarrow> real \<Rightarrow> nat" where
  "resolveSampleCount explicitSampleCount avgLength spacing =
     (let computed =
            max 200 (Math_round ((case avgLength of None \<Rightarrow> 0 | Some l \<Rightarrow> l)
                                 / max spacing (1 / 10)));
          fallback = (if computed = 0 then 1024 else nat computed)
      in case explicitSampleCount of
           None \<Rightarrow> fallback
         | Some c \<Rightarrow> if c \<noteq> 0 then c else fallback)"

record align_state =
  grouped :: "role \<Rightarrow> grid_point list list"
  referenceHeading :: "real list option"
  headingOffsets :: "string \<Rightarrow> real option"

text \<open>
  \<open>headings.map((angle, idx) => wrapAngle(angle - referenceHeading[idx]))\<close> followed by
  \<open>filter(Number.isFinite)\<close>: an index past the end of the reference gives \<open>NaN\<close>,
  which the filter drops; every real is finite.
\<close>

definition headingDeltas :: "real list \<Rightarrow> real list \<Rightarrow> real list" where
  "headingDeltas headings reference =
     map (\<lambda>idx. wrapAngle (headings ! idx - reference ! idx))
       (filter (\<lambda>idx. idx < length reference) [0..<length headings])"

definition pushGrid :: "role \<Rightarrow> grid_point list \<Rightarrow> align_state \<Rightarrow> align_state" where
  "pushGrid r grid st = st\<lparr>grouped := (grouped st)(r := grouped st r @ [grid])\<rparr>"

text \<open>The body of the loop over the classified laps.\<close>

definition processLap :: "nat \<Rightarrow> bool \<Rightarrow> align_state \<Rightarrow> classified_lap \<Rightarrow> error + align_state" where
  "processLap gridSize align st cl =
     (case resampleOnGrid (lap_samples cl) gridSize of
        Inl e \<Rightarrow> Inl e
      | Inr grid \<Rightarrow>
          if align then
            let headings = computeHeadings grid
            in (case referenceHeading st of
                  None \<Rightarrow>
                    Inr (pushGrid (lap_type cl) grid
                          (st\<lparr>referenceHeading := Some headings,
                              headingOffsets := (headingOffsets st)(offsetKey cl \<mapsto> 0)\<rparr>))
                | Some reference \<Rightarrow>
                    let deltas = headingDeltas headings reference;
                        normalizedDelta = medianAngle deltas;
                        st' = st\<lparr>headingOffsets :=
                                   (headingOffsets st)(offsetKey cl \<mapsto> normalizedDelta)\<rparr>
                    in if \<bar>normalizedDelta\<bar> > 1 / 10 ^ 4
                       then Inr (pushGrid (lap_type cl) (rotateGrid grid (- normalizedDelta)) st')
                       else Inr (pushGrid (lap_type cl) grid st'))
          else Inr (pushGrid (lap_type cl) grid st))"

fun processLaps :: "nat \<Rightarrow> bool \<Rightarrow> align_state \<Rightarrow> classified_lap list \<Rightarrow> error + align_state" where
  "processLaps gridSize align st [] = Inr st"
| "processLaps gridSize align st (cl # rest) =
     (case processLap gridSize align st cl of
        Inl e \<Rightarrow> Inl e
      | Inr st' \<Rightarrow> processLaps gridSize align st' rest)"

definition averageGrid :: "grid_point list list \<Rightarrow> error + grid_point list option" where
  "averageGrid gridList =
     (if length gridList = 0 then Inr None
      else
        let len = length (gridList ! 0)
        in case find (\<lambda>grid. length grid \<noteq> len) gridList of
             Some grid \<Rightarrow> Inl (GridSizeMismatch len (length grid))
           | None \<Rightarrow>
               if length gridList = 1 then Inr (Some (gridList ! 0))
               else Inr (Some (map (\<lambda>i.
                 \<lparr>progress = progress (gridList ! 0 ! i),
                  point_x = foldl (\<lambda>sumX grid. sumX + point_x (grid ! i)) 0 gridList
                            / real (length gridList),
                  point_y = foldl (\<lambda>sumY grid. sumY + point_y (grid ! i)) 0 gridList
                            / real (length gridList)\<rparr>) [0..<len])))"

record resample_result =
  grids_left :: "grid_point list option"
  grids_right :: "grid_point list option"
  grids_center :: "grid_point list option"
  rawSamples :: "role \<Rightarrow> grid_point list list"
  meta_trackLength :: "real option"
  meta_sampleCount :: nat
  meta_spacingMeters :: real
  meta_headingOffsets :: "string \<Rightarrow> real option"

definition initialAlignState :: align_state where
  "initialAlignState =
     \<lparr>grouped = (\<lambda>r. []), referenceHeading = None, headingOffsets = (\<lambda>k. None)\<rparr>"

definition resampleCalibrationLaps ::
  "classified_lap list \<Rightarrow> resample_options \<Rightarrow> error + resample_result" where
  "resampleCalibrationLaps classifiedLaps options =
     (let avgLength = averageLength classifiedLaps;
          gridSize = resolveSampleCount (opt_sampleCount options) avgLength
                       (opt_spacingMeters options)
      in case processLaps gridSize (opt_alignHeading options) initialAlignState classifiedLaps of
           Inl e \<Rightarrow> Inl e
         | Inr st \<Rightarrow>
             (case averageGrid (grouped st Left) of
                Inl e \<Rightarrow> Inl e
              | Inr leftGrid \<Rightarrow>
                  (case averageGrid (grouped st Right) of
                     Inl e \<Rightarrow> Inl e
                   | Inr rightGrid \<Rightarrow>
                       if leftGrid = None \<and> rightGrid = None then Inl NoLeftOrRightLap
                       else
                         (case (if length (grouped st Center) \<noteq> 0
                                then averageGrid (grouped st Center) else Inr None) of
                            Inl e \<Rightarrow> Inl e
                          | Inr centerGrid \<Rightarrow>
                              Inr \<lparr>grids_left = leftGrid,
                                   grids_right = rightGrid,
                                   grids_center = centerGrid,
                                   rawSamples = grouped st,
                                   meta_trackLength = avgLength,
                                   meta_sampleCount = gridSize,
                                   meta_spacingMeters =
                                     (case avgLength of
                                        Some l \<Rightarrow> if gridSize > 1
                                                  then l / (real gridSize - 1)
                                                  else opt_spacingMeters options
                                      | None \<Rightarrow> opt_spacingMeters options),
                                   meta_headingOffsets = headingOffsets st\<rparr>))))"


section \<open>Constraint enforcer (constraints.js)\<close>

text \<open>
  The width arrays are \<open>Float64Array\<close> objects that the caller keeps using, and the
  function promises to work on copies. Arrays therefore live in an explicit store: an address
  maps to the contents of the array allocated there.
\<close>

type_synonym addr = nat

record heap =
  cells :: "addr \<Rightarrow> real list option"
  next_addr :: addr

definition heap_read :: "heap \<Rightarrow> addr \<Rightarrow> real list" where
  "heap_read h a = (case cells h a of None \<Rightarrow> [] | Some xs \<Rightarrow> xs)"

text \<open>\<open>new Float64Array(source)\<close> allocates a fresh array holding a copy of the source.\<close>

definition new_Float64Array :: "real list \<Rightarrow> heap \<Rightarrow> addr \<times> heap" where
  "new_Float64Array source h =
     (next_addr h, h\<lparr>cells := (cells h)(next_addr h \<mapsto> source), next_addr := Suc (next_addr h)\<rparr>)"

text \<open>\<open>array[i] = v\<close> on a typed array: a write past the end is ignored.\<close>

definition heap_write :: "heap \<Rightarrow> addr \<Rightarrow> nat \<Rightarrow> real \<Rightarrow> heap" where
  "heap_write h a i v =
     (case cells h a of
        None \<Rightarrow> h
      | Some xs \<Rightarrow> if i < length xs then h\<lparr>cells := (cells h)(a \<mapsto> xs[i := v])\<rparr> else h)"

definition projectOntoNormal :: "grid_point \<Rightarrow> real \<times> real \<Rightarrow> real \<times> real \<Rightarrow> real" where
  "projectOntoNormal point center normal =
     (let dx = point_x point - fst center;
          dy = point_y point - snd center
      in dx * fst normal + dy * snd normal)"

text \<open>
  The loop over the laps of one side at sample \<open>i\<close>. \<open>negate\<close> is set for the right
  side, whose projection is negated. A lap without a point at \<open>i\<close> is skipped; reading a
  component of a missing normal raises a \<open>TypeError\<close>.
\<close>

fun limitLoop ::
  "bool \<Rightarrow> grid_point list list \<Rightarrow> nat \<Rightarrow> real \<times> real \<Rightarrow> (real \<times> real) option \<Rightarrow> real \<Rightarrow> error + real" where
  "limitLoop negate [] i center normal limit = Inr limit"
| "limitLoop negate (lap # laps) i center normal limit =
     (case js_at lap (int i) of
        None \<Rightarrow> limitLoop negate laps i center normal limit
      | Some point \<Rightarrow>
          (case normal of
             None \<Rightarrow> Inl TypeError
           | Some nrm \<Rightarrow>
               let projection = (if negate then - projectOntoNormal point center nrm
                                 else projectOntoNormal point center nrm)
               in limitLoop negate laps i center normal
                    (if projection > limit then projection else limit)))"

record clamp_stats =
  stat_clamped :: nat
  stat_indices :: "nat list"

text \<open>One side of the loop body: the array at \<open>res\<close> is clamped at index \<open>i\<close>.\<close>

definition clampSide ::
  "bool \<Rightarrow> grid_point list list \<Rightarrow> real \<Rightarrow> nat \<Rightarrow> real \<times> real \<Rightarrow> (real \<times> real) option
     \<Rightarrow> addr \<Rightarrow> heap \<times> clamp_stats \<Rightarrow> error + heap \<times> clamp_stats" where
  "clampSide negate laps safeScale i center normal res hs =
     (if length laps \<noteq> 0 then
        (case limitLoop negate laps i center normal 0 of
           Inl e \<Rightarrow> Inl e
         | Inr limit0 \<Rightarrow>
             let limit = limit0 * safeScale
             in if limit > 0 \<and> (case js_at (heap_read (fst hs) res) (int i) of
                                   None \<Rightarrow> False | Some w \<Rightarrow> w > limit)
                then Inr (heap_write (fst hs) res i limit,
                          \<lparr>stat_clamped = stat_clamped (snd hs) + 1,
                           stat_indices = stat_indices (snd hs) @ [i]\<rparr>)
                else Inr hs)
      else Inr hs)"

record enforce_state =
  es_heap :: heap
  es_left :: clamp_stats
  es_right :: clamp_stats

definition enforceStep ::
  "(real \<times> real) list \<Rightarrow> (real \<times> real) list \<Rightarrow> grid_point list list \<Rightarrow> grid_point list list
     \<Rightarrow> real \<Rightarrow> addr \<Rightarrow> addr \<Rightarrow> nat \<Rightarrow> enforce_state \<Rightarrow> error + enforce_state" where
  "enforceStep centerline normals leftLaps rightLaps safeScale leftResult rightResult i st =
     (let center = centerline ! i;
          normal = js_at normals (int i)
      in case clampSide False leftLaps safeScale i center normal leftResult
                (es_heap st, es_left st) of
           Inl e \<Rightarrow> Inl e
         | Inr (h1, statsL) \<Rightarrow>
             (case clampSide True rightLaps safeScale i center normal rightResult
                     (h1, es_right st) of
                Inl e \<Rightarrow> Inl e
              | Inr (h2, statsR) \<Rightarrow>
                  Inr \<lparr>es_heap = h2, es_left = statsL, es_right = statsR\<rparr>))"

fun enforceLoop ::
  "(real \<times> real) list \<Rightarrow> (real \<times> real) list \<Rightarrow> grid_point list list \<Rightarrow> grid_point list list
     \<Rightarrow> real \<Rightarrow> addr \<Rightarrow> addr \<Rightarrow> nat list \<Rightarrow> enforce_state \<Rightarrow> error + enforce_state" where
  "enforceLoop centerline normals leftLaps rightLaps safeScale leftResult rightResult [] st = Inr st"
| "enforceLoop centerline normals leftLaps rightLaps safeScale leftResult rightResult (i # rest) st =
     (case enforceStep centerline normals leftLaps rightLaps safeScale leftResult rightResult i st of
        Inl e \<Rightarrow> Inl e
      | Inr st' \<Rightarrow>
          enforceLoop centerline normals leftLaps rightLaps safeScale leftResult rightResult rest st')"

record enforce_result =
  out_heap :: heap
  out_halfWidthLeft :: addr
  out_halfWidthRight :: addr
  out_clampScale :: real
  out_leftClamped :: nat
  out_rightClamped :: nat
  out_leftIndices :: "nat list"
  out_rightIndices :: "nat list"

text \<open>
  \<open>halfWidthLeft\<close> and \<open>halfWidthRight\<close> are the addresses of the caller's arrays. The
  result holds the store after the call and the addresses of the two arrays returned.
\<close>

definition enforceWidthConstraints ::
  "heap \<Rightarrow> (real \<times> real) list \<Rightarrow> (real \<times> real) list \<Rightarrow> grid_point list list
     \<Rightarrow> grid_point list list \<Rightarrow> addr \<Rightarrow> addr \<Rightarrow> real \<Rightarrow> error + enforce_result" where
  "enforceWidthConstraints h centerline normals leftLaps rightLaps halfWidthLeft halfWidthRight
       clampScale =
     (let n = length centerline;
          (leftResult, h1) = new_Float64Array (heap_read h halfWidthLeft) h;
          (rightResult, h2) = new_Float64Array (heap_read h1 halfWidthRight) h1;
          safeScale = max (1 / 10) (min clampScale 1)
      in case enforceLoop centerline normals leftLaps rightLaps safeScale leftResult rightResult
                [0..<n]
                \<lparr>es_heap = h2,
                 es_left = \<lparr>stat_clamped = 0, stat_indices = []\<rparr>,
                 es_right = \<lparr>stat_clamped = 0, stat_indices = []\<rparr>\<rparr> of
           Inl e \<Rightarrow> Inl e
         | Inr st \<Rightarrow>
             Inr \<lparr>out_heap = es_heap st,
                  out_halfWidthLeft = leftResult,
                  out_halfWidthRight = rightResult,
                  out_clampScale = clampScale,
                  out_leftClamped = stat_clamped (es_left st),
                  out_rightClamped = stat_clamped (es_right st),
                  out_leftIndices = stat_indices (es_left st),
                  out_rightIndices = stat_indices (es_right st)\<rparr>)"


section \<open>Savitzky-Golay smoothing (smoothing.js)\<close>

type_synonym matrix = "real list list"

text \<open>
  The matrix helpers are only called on matrices with at least one row, whose rows all have
  the length of the first row (see \<open>getSavitzkyGolayKernel\<close>).
\<close>

definition transposeMatrix :: "matrix \<Rightarrow> matrix" where
  "transposeMatrix m =
     (let rows = length m;
          cols = length (m ! 0)
      in map (\<lambda>j. map (\<lambda>i. m ! i ! j) [0..<rows]) [0..<cols])"

text \<open>
  \<open>result[i][j]\<close> accumulates \<open>a[i][k] * b[k][j]\<close> for \<open>k\<close> ascending, starting
  from 0.
\<close>

definition multiplyMatrices :: "matrix \<Rightarrow> matrix \<Rightarrow> matrix" where
  "multiplyMatrices a b =
     (let rows = length a;
          cols = length (b ! 0);
          inner = length b
      in map (\<lambda>i. map (\<lambda>j. foldl (\<lambda>acc k. acc + a ! i ! k * b ! k ! j) 0 [0..<inner])
                      [0..<cols]) [0..<rows])"

text \<open>
  One round of the Gauss-Jordan elimination on the augmented matrix: the pivot search (only
  when the pivot is below the threshold; the first lower row with a larger entry is swapped
  in), the singularity check, the scaling of the pivot row and the elimination of the column
  from every other row.
\<close>

definition invertStep :: "nat \<Rightarrow> nat \<Rightarrow> matrix \<Rightarrow> error + matrix" where
  "invertStep n i augmented =
     (let pivot0 = augmented ! i ! i;
          swapped =
            (if \<bar>pivot0\<bar> < 1 / 10 ^ 12 then
               (case find (\<lambda>r. \<bar>augmented ! r ! i\<bar> > \<bar>pivot0\<bar>) [i + 1..<n] of
                  None \<Rightarrow> augmented
                | Some r \<Rightarrow> augmented[i := augmented ! r, r := augmented ! i])
             else augmented);
          pivot = swapped ! i ! i
      in if \<bar>pivot\<bar> < 1 / 10 ^ 12 then Inl SingularMatrix
         else
           let pivotInv = 1 / pivot;
               pivotRow = map (\<lambda>j. swapped ! i ! j * pivotInv) [0..<2 * n]
           in Inr (map (\<lambda>r.
                if r = i then pivotRow
                else
                  let factor = swapped ! r ! i
                  in map (\<lambda>c. swapped ! r ! c - factor * pivotRow ! c) [0..<2 * n])
                [0..<n]))"

fun invertLoop :: "nat \<Rightarrow> nat list \<Rightarrow> matrix \<Rightarrow> error + matrix" where
  "invertLoop n [] augmented = Inr augmented"
| "invertLoop n (i # rest) augmented =
     (case invertStep n i augmented of
        Inl e \<Rightarrow> Inl e
      | Inr augmented' \<Rightarrow> invertLoop n rest augmented')"

definition invertMatrix :: "matrix \<Rightarrow> error + matrix" where
  "invertMatrix m =
     (let n = length m;
          augmented = map (\<lambda>i. m ! i @ (replicate n 0)[i := 1]) [0..<n]
      in case invertLoop n [0..<n] augmented of
           Inl e \<Rightarrow> Inl e
         | Inr aug \<Rightarrow> Inr (map (\<lambda>i. map (\<lambda>j. aug ! i ! (j + n)) [0..<n]) [0..<n]))"

text \<open>
  The kernel cache of the module. Its key is \<open>windowSize|order|spacing.toFixed(4)\<close>; the
  decimal string of \<open>toFixed(4)\<close> is determined by the sign and by the magnitude rounded
  to four decimals, which stand for it here.
\<close>

type_synonym sg_key = "nat \<times> nat \<times> bool \<times> int"

type_synonym sg_cache = "sg_key \<Rightarrow> real list option"

definition toFixed4 :: "real \<Rightarrow> bool \<times> int" where
  "toFixed4 v = (v < 0, \<lfloor>\<bar>v\<bar> * 10 ^ 4 + 1 / 2\<rfloor>)"

definition sgKey :: "nat \<Rightarrow> nat \<Rightarrow> real \<Rightarrow> sg_key" where
  "sgKey windowSize order spacing = (windowSize, order, toFixed4 spacing)"

definition designMatrix :: "nat \<Rightarrow> nat \<Rightarrow> real \<Rightarrow> matrix" where
  "designMatrix windowSize order spacing =
     (let half = windowSize div 2;
          safeSpacing = max spacing (1 / 10 ^ 3);
          samplePositions = map (\<lambda>i. real_of_int i * safeSpacing) [- int half..int half];
          orderPlusOne = order + 1
      in map (\<lambda>t. map (\<lambda>p. t ^ p) [0..<orderPlusOne]) samplePositions)"

definition computeKernel :: "nat \<Rightarrow> nat \<Rightarrow> real \<Rightarrow> error + real list" where
  "computeKernel windowSize order spacing =
     (let A = designMatrix windowSize order spacing;
          AT = transposeMatrix A;
          ATA = multiplyMatrices AT A
      in case invertMatrix ATA of
           Inl e \<Rightarrow> Inl e
         | Inr ATAInv \<Rightarrow>
             let pseudoInverse = multiplyMatrices ATAInv AT
             in Inr (pseudoInverse ! 0))"

text \<open>A cached kernel is returned as it is; a thrown error leaves the cache as it was.\<close>

definition getSavitzkyGolayKernel ::
  "sg_cache \<Rightarrow> nat \<Rightarrow> nat \<Rightarrow> real \<Rightarrow> error + real list \<times> sg_cache" where
  "getSavitzkyGolayKernel cache windowSize order spacing =
     (let key = sgKey windowSize order spacing
      in case cache key of
           Some kern \<Rightarrow> Inr (kern, cache)
         | None \<Rightarrow>
             (case computeKernel windowSize order spacing of
                Inl e \<Rightarrow> Inl e
              | Inr kern \<Rightarrow> Inr (kern, cache(key \<mapsto> kern))))"

text \<open>
  The accumulation over the window at sample \<open>i\<close>. A sum is \<open>NaN\<close> (\<open>None\<close>)
  as soon as one of its terms is: \<open>values[index]\<close> is \<open>undefined\<close> outside the array,
  which the circular index \<open>(index + n) % n\<close> reaches when \<open>index + n\<close> is negative, and
  \<open>kernel[k]\<close> is \<open>undefined\<close> past the end of the kernel.
\<close>

definition windowStep ::
  "real list \<Rightarrow> real list \<Rightarrow> nat \<Rightarrow> bool \<Rightarrow> nat \<Rightarrow> real option \<times> real option \<Rightarrow> nat
     \<Rightarrow> real option \<times> real option" where
  "windowStep kern vals half circular i acc k =
     (let n = int (length vals);
          index0 = int i + int k - int half;
          contribute = (\<lambda>index.
            ((case (fst acc, js_at kern (int k), js_at vals index) of
                (Some s, Some w, Some v) \<Rightarrow> Some (s + w * v)
              | _ \<Rightarrow> None),
             (case (snd acc, js_at kern (int k)) of
                (Some ws, Some w) \<Rightarrow> Some (ws + w)
              | _ \<Rightarrow> None)))
      in if circular then contribute (js_rem (index0 + n) n)
         else if index0 < 0 \<or> index0 \<ge> n then acc
         else contribute index0)"

text \<open>
  \<open>weightSum !== 0 ? sum / weightSum : values[i]\<close>; a \<open>NaN\<close> weight sum differs
  from 0 and makes the quotient \<open>NaN\<close>.
\<close>

definition smoothSample ::
  "real list \<Rightarrow> real list \<Rightarrow> nat \<Rightarrow> bool \<Rightarrow> nat \<Rightarrow> real option" where
  "smoothSample kern vals windowSize circular i =
     (let half = windowSize div 2;
          (sum, weightSum) =
            foldl (windowStep kern vals half circular i) (Some 0, Some 0) [0..<windowSize]
      in case weightSum of
           None \<Rightarrow> None
         | Some ws \<Rightarrow> if ws \<noteq> 0 then map_option (\<lambda>s. s / ws) sum else js_at vals (int i))"

text \<open>
  The result array may hold \<open>NaN\<close> entries (\<open>None\<close>). The call returns the updated
  cache beside it.
\<close>

definition savitzkyGolaySmooth ::
  "sg_cache \<Rightarrow> real list \<Rightarrow> nat \<Rightarrow> nat \<Rightarrow> real \<Rightarrow> bool \<Rightarrow> error + real option list \<times> sg_cache" where
  "savitzkyGolaySmooth cache vals windowSize0 order spacing circular =
     (if windowSize0 < 3 then Inl WindowTooSmall
      else
        let windowSize = (if windowSize0 mod 2 = 0 then windowSize0 + 1 else windowSize0)
        in case getSavitzkyGolayKernel cache windowSize order spacing of
             Inl e \<Rightarrow> Inl e
           | Inr (kern, cache') \<Rightarrow>
               Inr (map (smoothSample kern vals windowSize circular) [0..<length vals],
                    cache'))"


section \<open>Spline builder and width estimator (spline.js)\<close>

record point =
  px :: real
  py :: real

text \<open>
  \<open>points[(index % n + n) % n]\<close>; it is only called on a non-empty array, where the
  index computed lies inside the array.
\<close>

definition wrap :: "point list \<Rightarrow> int \<Rightarrow> point" where
  "wrap points index =
     (let n = int (length points)
      in points ! nat (js_rem (js_rem index n + n) n))"

definition curvatureScore :: "point list \<Rightarrow> nat \<Rightarrow> real" where
  "curvatureScore points index =
     (let prev = wrap points (int index - 1);
          curr = wrap points (int index);
          next = wrap points (int index + 1);
          v1x = px curr - px prev;
          v1y = py curr - py prev;
          v2x = px next - px curr;
          v2y = py next - py curr;
          cross = v1x * v2y - v1y * v2x;
          dot = v1x * v2x + v1y * v2y
      in \<bar>Math_atan2 cross dot\<bar>)"

text \<open>
  A JavaScript \<open>Set\<close> of indices keeps its members in insertion order: a list without
  duplicates, \<open>add\<close> appending at the end.
\<close>

definition set_add :: "nat \<Rightarrow> nat list \<Rightarrow> nat list" where
  "set_add idx indexSet = (if idx \<in> set indexSet then indexSet else indexSet @ [idx])"

definition set_delete :: "nat \<Rightarrow> nat list \<Rightarrow> nat list" where
  "set_delete idx indexSet = filter (\<lambda>j. j \<noteq> idx) indexSet"

text \<open>
  \<open>for (let idx = 0; idx < n && indexSet.size < targetCount; idx += straightSamples)\<close>.
  The stride is \<open>Math.max(1, ...)\<close> at the call, hence positive; the guard on it only
  makes the recursion total.
\<close>

function straightLoop :: "nat \<Rightarrow> nat \<Rightarrow> nat \<Rightarrow> nat \<Rightarrow> nat list \<Rightarrow> nat list" where
  "straightLoop n targetCount straightSamples idx indexSet =
     (if idx < n \<and> length indexSet < targetCount \<and> 0 < straightSamples
      then straightLoop n targetCount straightSamples (idx + straightSamples) (set_add idx indexSet)
      else indexSet)"
  by pat_completeness auto
termination
  by (relation "measure (\<lambda>(n, targetCount, straightSamples, idx, indexSet). n - idx)") auto

declare straightLoop.simps [simp del]

definition buildAnchorBudget ::
  "point list \<Rightarrow> nat \<Rightarrow> int list \<Rightarrow> real \<Rightarrow> real \<Rightarrow> point list" where
  "buildAnchorBudget points targetCount biasIndices spacingMeters straightSpacing =
     (let n = length points
      in if n \<le> targetCount \<or> targetCount < 4 then points
         else
           let indexSet0 =
                 foldl (\<lambda>s idx. set_add (nat (js_rem (js_rem idx (int n) + int n) (int n))) s)
                   [] biasIndices;
               straightSamples =
                 nat (max 1 (Math_round (straightSpacing / max spacingMeters (1 / 10 ^ 3))));
               indexSet1 = straightLoop n targetCount straightSamples 0 indexSet0;
               curvatureScores = map (\<lambda>idx. (idx, curvatureScore points idx)) [0..<n];
               indexSet2 =
                 foldl (\<lambda>s entry. if length s < targetCount then set_add (fst entry) s else s)
                   indexSet1 (sort_key (\<lambda>entry. - snd entry) curvatureScores);
               indexSet3 =
                 (if length indexSet2 > targetCount then
                    let sortedByCurvature =
                          sort_key snd (map (\<lambda>idx. (idx, curvatureScore points idx)) indexSet2)
                    in foldl (\<lambda>s entry. set_delete (fst entry) s) indexSet2
                         (take (length sortedByCurvature - targetCount) sortedByCurvature)
                  else indexSet2);
               sortedIndices = sort indexSet3;
               selected = map (\<lambda>idx. points ! idx) sortedIndices
           in if length selected < 4 then points else selected)"

text \<open>
  One sample of the constant-width envelope. The angle is \<open>undefined\<close> when the angle
  array is shorter than the width array: its absolute value is \<open>NaN\<close>, both comparisons
  are false and the right side is taken as the inside. A raw width read past the end of its
  array makes both results \<open>NaN\<close>.
\<close>

definition envelopeInsideLeft :: "real list option \<Rightarrow> nat \<Rightarrow> bool \<Rightarrow> bool" where
  "envelopeInsideLeft signedAngles i lastInsideLeft =
     (case (case signedAngles of None \<Rightarrow> Some 0 | Some angles \<Rightarrow> js_at angles (int i)) of
        None \<Rightarrow> False
      | Some angle \<Rightarrow> if \<bar>angle\<bar> < 1 / 10 ^ 3 then lastInsideLeft else angle \<ge> 0)"

definition envelopeSample ::
  "real \<Rightarrow> real \<Rightarrow> real option \<Rightarrow> real option \<times> real option" where
  "envelopeSample minWidth targetWidth raw =
     (case raw of
        None \<Rightarrow> (None, None)
      | Some w \<Rightarrow>
          let insideHalf = max 0 w;
              desiredTotal = max minWidth (if targetWidth * (95 / 100) \<noteq> 0
                                           then targetWidth * (95 / 100) else insideHalf * 2);
              outsideHalf0 = desiredTotal - insideHalf;
              outsideHalf1 = (if outsideHalf0 < insideHalf * (4 / 10)
                              then insideHalf * (4 / 10) else outsideHalf0);
              outsideHalf = (if outsideHalf1 < 75 / 100 then 75 / 100 else outsideHalf1)
          in (Some insideHalf, Some outsideHalf))"

record envelope_state =
  env_left :: "real option list"
  env_right :: "real option list"
  env_insideLeftCount :: nat
  env_insideRightCount :: nat
  env_lastInsideLeft :: bool

definition envelopeStep ::
  "real list \<Rightarrow> real list \<Rightarrow> real list option \<Rightarrow> real \<Rightarrow> real \<Rightarrow> envelope_state \<Rightarrow> nat
     \<Rightarrow> envelope_state" where
  "envelopeStep halfWidthLeft halfWidthRight signedAngles minWidth targetWidth st i =
     (let insideLeft = envelopeInsideLeft signedAngles i (env_lastInsideLeft st);
          raw = (if insideLeft then js_at halfWidthLeft (int i) else js_at halfWidthRight (int i));
          (insideHalf, outsideHalf) = envelopeSample minWidth targetWidth raw
      in if insideLeft then
           st\<lparr>env_left := (env_left st)[i := insideHalf],
              env_right := (env_right st)[i := outsideHalf],
              env_insideLeftCount := env_insideLeftCount st + 1,
              env_lastInsideLeft := insideLeft\<rparr>
         else
           st\<lparr>env_right := (env_right st)[i := insideHalf],
              env_left := (env_left st)[i := outsideHalf],
              env_insideRightCount := env_insideRightCount st + 1,
              env_lastInsideLeft := insideLeft\<rparr>)"

record envelope_result =
  envelope_halfWidthLeft :: "real option list"
  envelope_halfWidthRight :: "real option list"
  envelope_targetWidth :: real
  envelope_insideLeftCount :: nat
  envelope_insideRightCount :: nat

definition buildConstantWidthEnvelope ::
  "real list \<Rightarrow> real list \<Rightarrow> real list option \<Rightarrow> real \<Rightarrow> envelope_result" where
  "buildConstantWidthEnvelope halfWidthLeft halfWidthRight signedAngles targetWidth =
     (let n = length halfWidthLeft;
          minWidth = (if targetWidth > 0 then targetWidth else 6);
          st = foldl (envelopeStep halfWidthLeft halfWidthRight signedAngles minWidth targetWidth)
                 \<lparr>env_left = replicate n (Some 0),
                  env_right = replicate n (Some 0),
                  env_insideLeftCount = 0,
                  env_insideRightCount = 0,
                  env_lastInsideLeft = True\<rparr>
                 [0..<n]
      in \<lparr>envelope_halfWidthLeft = env_left st,
          envelope_halfWidthRight = env_right st,
          envelope_targetWidth = minWidth,
          envelope_insideLeftCount = env_insideLeftCount st,
          envelope_insideRightCount = env_insideRightCount st\<rparr>)"

subsection \<open>Rounding to double precision\<close>

text \<open>
  Whether the slope clamp settles depends on the rounding of its additions, so the slope clamp
  takes the rounding of every arithmetic result as a parameter \<open>rnd\<close>. The program is the
  instance \<open>rnd = float64\<close>; the identity gives the same algorithm in exact arithmetic.

  \<open>float64\<close> rounds a real to the nearest number with a 53-bit significand, ties to the
  even significand, as IEEE 754 double precision does in its normal range (overflow to
  infinity and subnormal numbers are not modelled). \<open>normalise\<close> scales the magnitude
  into \<open>[2^52, 2^53)\<close> by powers of two, returning it with the unit that undoes the scaling.
\<close>

fun normalise :: "nat \<Rightarrow> real \<Rightarrow> real \<Rightarrow> real \<times> real" where
  "normalise 0 m u = (m, u)"
| "normalise (Suc fuel) m u =
     (if m < 2 ^ 52 then normalise fuel (m * 2) (u / 2)
      else if 2 ^ 53 \<le> m then normalise fuel (m / 2) (u * 2)
      else (m, u))"

definition roundHalfEven :: "real \<Rightarrow> int" where
  "roundHalfEven m =
     (let f = \<lfloor>m\<rfloor>
      in if m - of_int f < 1 / 2 then f
         else if m - of_int f > 1 / 2 then f + 1
         else if even f then f else f + 1)"

definition float64 :: "real \<Rightarrow> real" where
  "float64 v =
     (if v = 0 then 0
      else
        let (m, u) = normalise 2200 \<bar>v\<bar> 1
        in sgn v * of_int (roundHalfEven m) * u)"

subsection \<open>Slope clamp\<close>

text \<open>
  The slope clamp. \<open>n\<close> is the constant \<open>values.length\<close>; one visit of sample
  \<open>i\<close> inside a pass compares it with its circular predecessor. The difference and the
  clamped value are rounded results.
\<close>

record slope_state =
  sl_result :: "real list"
  sl_flags :: "bool list"
  sl_changed :: bool

definition slopeVisit ::
  "(real \<Rightarrow> real) \<Rightarrow> real \<Rightarrow> nat \<Rightarrow> slope_state \<Rightarrow> nat \<Rightarrow> slope_state" where
  "slopeVisit rnd perSampleLimit n st i =
     (let prevIndex = (i + n - 1) mod n;
          prevValue = sl_result st ! prevIndex;
          current = sl_result st ! i;
          delta = rnd (current - prevValue)
      in if delta > perSampleLimit then
           st\<lparr>sl_result := (sl_result st)[i := rnd (prevValue + perSampleLimit)],
              sl_flags := (sl_flags st)[i := True],
              sl_changed := True\<rparr>
         else if delta < - perSampleLimit then
           st\<lparr>sl_result := (sl_result st)[i := rnd (prevValue - perSampleLimit)],
              sl_flags := (sl_flags st)[i := True],
              sl_changed := True\<rparr>
         else st)"

definition slopePass ::
  "(real \<Rightarrow> real) \<Rightarrow> real \<Rightarrow> nat \<Rightarrow> slope_state \<Rightarrow> slope_state" where
  "slopePass rnd perSampleLimit n st =
     foldl (slopeVisit rnd perSampleLimit n) (st\<lparr>sl_changed := False\<rparr>) [0..<n]"

text \<open>\<open>while (changed && iterations < n * 2)\<close>\<close>

function slopeLoop ::
  "(real \<Rightarrow> real) \<Rightarrow> real \<Rightarrow> nat \<Rightarrow> nat \<Rightarrow> slope_state \<Rightarrow> slope_state" where
  "slopeLoop rnd perSampleLimit n iterations st =
     (if sl_changed st \<and> iterations < n * 2
      then slopeLoop rnd perSampleLimit n (iterations + 1) (slopePass rnd perSampleLimit n st)
      else st)"
  by pat_completeness auto
termination
  by (relation "measure (\<lambda>(rnd, perSampleLimit, n, iterations, st). n * 2 - iterations)") auto

declare slopeLoop.simps [simp del]

record slope_clamp =
  clamp_values :: "real list"
  clamp_flags :: "bool list"
  clamp_clampedCount :: nat

definition applySlopeClamp :: "(real \<Rightarrow> real) \<Rightarrow> real list \<Rightarrow> real \<Rightarrow> slope_clamp" where
  "applySlopeClamp rnd vals perSampleLimit =
     (let n = length vals;
          st = slopeLoop rnd perSampleLimit n 0
                 \<lparr>sl_result = vals, sl_flags = replicate n False, sl_changed = True\<rparr>
      in \<lparr>clamp_values = sl_result st,
          clamp_flags = sl_flags st,
          clamp_clampedCount = length (filter (\<lambda>f. f) (sl_flags st))\<rparr>)"

record sector_summary =
  sector_index :: nat
  sector_samples :: nat
  sector_clamped :: nat
  sector_ratio :: real

definition summariseClampBySector ::
  "(real \<Rightarrow> real) \<Rightarrow> bool list \<Rightarrow> real \<Rightarrow> real \<Rightarrow> sector_summary list" where
  "summariseClampBySector rnd flags spacingMeters sectorLength =
     (if length flags = 0 then []
      else
        let samplesPerSector =
              nat (max 1 (Math_round (rnd (sectorLength / max spacingMeters (rnd (1 / 10 ^ 3))))));
            sectorCount = nat \<lceil>rnd (real (length flags) / real samplesPerSector)\<rceil>
        in map (\<lambda>sector.
             let start = sector * samplesPerSector;
                 end = min (length flags) (start + samplesPerSector);
                 clamped = length (filter (\<lambda>idx. flags ! idx) [start..<end])
             in \<lparr>sector_index = sector,
                 sector_samples = end - start,
                 sector_clamped = clamped,
                 sector_ratio = (if end - start > 0 then rnd (real clamped / real (end - start))
                                 else 0)\<rparr>) [0..<sectorCount])"

record width_delta_clamp =
  wd_halfWidthLeft :: "real list"
  wd_halfWidthRight :: "real list"
  wd_perSampleLimit :: real
  wd_maxDeltaPer10m :: real
  wd_leftClamped :: nat
  wd_rightClamped :: nat
  wd_leftSectors :: "sector_summary list"
  wd_rightSectors :: "sector_summary list"

definition clampWidthDeltas ::
  "(real \<Rightarrow> real) \<Rightarrow> real list \<Rightarrow> real list \<Rightarrow> real \<Rightarrow> real \<Rightarrow> real \<Rightarrow> width_delta_clamp" where
  "clampWidthDeltas rnd halfWidthLeft halfWidthRight spacingMeters maxDeltaPer10m sectorLength =
     (let limitPerMeter = rnd (maxDeltaPer10m / 10);
          perSampleLimit = rnd (limitPerMeter * max spacingMeters (rnd (1 / 10 ^ 3)));
          leftClamp = applySlopeClamp rnd halfWidthLeft perSampleLimit;
          rightClamp = applySlopeClamp rnd halfWidthRight perSampleLimit
      in \<lparr>wd_halfWidthLeft = clamp_values leftClamp,
          wd_halfWidthRight = clamp_values rightClamp,
          wd_perSampleLimit = perSampleLimit,
          wd_maxDeltaPer10m = maxDeltaPer10m,
          wd_leftClamped = clamp_clampedCount leftClamp,
          wd_rightClamped = clamp_clampedCount rightClamp,
          wd_leftSectors =
            summariseClampBySector rnd (clamp_flags leftClamp) spacingMeters sectorLength,
          wd_rightSectors =
            summariseClampBySector rnd (clamp_flags rightClamp) spacingMeters sectorLength\<rparr>)"

section \<open>Notions used in the statements\<close>

text \<open>
  The side that \<open>buildConstantWidthEnvelope\<close> treats as the inside at sample \<open>i\<close>:
  the classification by the sign of the turning angle, small angles carrying the previous
  classification over, starting from the left.
\<close>

fun insideLeftAt :: "real list option \<Rightarrow> nat \<Rightarrow> bool" where
  "insideLeftAt signedAngles 0 = envelopeInsideLeft signedAngles 0 True"
| "insideLeftAt signedAngles (Suc i) =
     envelopeInsideLeft signedAngles (Suc i) (insideLeftAt signedAngles i)"

text \<open>The pair (left, right) that the envelope loop writes at sample \<open>j\<close>.\<close>

definition envelopeExpected ::
  "real list \<Rightarrow> real list \<Rightarrow> real list option \<Rightarrow> real \<Rightarrow> real \<Rightarrow> nat
     \<Rightarrow> real option \<times> real option" where
  "envelopeExpected halfWidthLeft halfWidthRight signedAngles minWidth targetWidth j =
     (let insideLeft = insideLeftAt signedAngles j;
          io = envelopeSample minWidth targetWidth
                 (if insideLeft then js_at halfWidthLeft (int j) else js_at halfWidthRight (int j))
      in if insideLeft then (fst io, snd io) else (snd io, fst io))"

text \<open>
  The outside half-width in the words of the specification:
  \<open>max(insideHalf * 0.4, desiredTotal - insideHalf)\<close> with a floor of 0.75, where
  \<open>desiredTotal = max(minWidth, targetWidth * 0.95)\<close> and \<open>minWidth\<close> is the target
  width, or 6 when that is 0.
\<close>

definition claimedOutsideHalf :: "real \<Rightarrow> real \<Rightarrow> real" where
  "claimedOutsideHalf targetWidth insideHalf =
     (let minWidth = (if targetWidth > 0 then targetWidth else 6);
          desiredTotal = max minWidth (targetWidth * (95 / 100))
      in max (max (insideHalf * (4 / 10)) (desiredTotal - insideHalf)) (75 / 100))"

text \<open>
  The perpendicular projections of the raw lap points of one side at sample \<open>i\<close> onto
  the normal there: one entry for every lap that has a point at \<open>i\<close>, negated for the
  right side.
\<close>

definition rawProjections ::
  "bool \<Rightarrow> grid_point list list \<Rightarrow> nat \<Rightarrow> real \<times> real \<Rightarrow> real \<times> real \<Rightarrow> real list" where
  "rawProjections negate laps i center normal =
     map (\<lambda>point. if negate then - projectOntoNormal point center normal
                   else projectOntoNormal point center normal)
       (List.map_filter (\<lambda>lap. js_at lap (int i)) laps)"

text \<open>\<open>ys\<close> has the length of \<open>xs\<close> and is nowhere above it.\<close>

definition pointwise_le :: "real list \<Rightarrow> real list \<Rightarrow> bool" where
  "pointwise_le ys xs \<longleftrightarrow> length ys = length xs \<and> (\<forall>j<length xs. ys ! j \<le> xs ! j)"

text \<open>The two arrays returned, read from the store after the call.\<close>

definition resultLeft :: "enforce_result \<Rightarrow> real list" where
  "resultLeft res = heap_read (out_heap res) (out_halfWidthLeft res)"

definition resultRight :: "enforce_result \<Rightarrow> real list" where
  "resultRight res = heap_read (out_heap res) (out_halfWidthRight res)"

text \<open>The state in which the loop over the samples starts: the two copies are allocated.\<close>

definition enforceStart :: "heap \<Rightarrow> addr \<Rightarrow> addr \<Rightarrow> enforce_state" where
  "enforceStart h hwL hwR =
     \<lparr>es_heap = h\<lparr>cells := (cells h)(next_addr h \<mapsto> heap_read h hwL,
                                      Suc (next_addr h) \<mapsto> heap_read h hwR),
                  next_addr := Suc (Suc (next_addr h))\<rparr>,
      es_left = \<lparr>stat_clamped = 0, stat_indices = []\<rparr>,
      es_right = \<lparr>stat_clamped = 0, stat_indices = []\<rparr>\<rparr>"

text \<open>
  The value a visit of the slope clamp leaves at a sample, given its predecessor, when nothing
  is rounded.
\<close>

definition clampTo :: "real \<Rightarrow> real \<Rightarrow> real \<Rightarrow> real" where
  "clampTo L prevValue current =
     (if current - prevValue > L then prevValue + L
      else if current - prevValue < - L then prevValue - L
      else current)"

text \<open>The effect of one visit on the array of values alone.\<close>

definition visitValues :: "real \<Rightarrow> nat \<Rightarrow> real list \<Rightarrow> nat \<Rightarrow> real list" where
  "visitValues L n r i = r[i := clampTo L (r ! ((i + n - 1) mod n)) (r ! i)]"

text \<open>
  Within the limit along the array (every sample against the one before it), and within the
  limit around the closed loop (the first sample against the last one as well).
\<close>

definition chainOK :: "real \<Rightarrow> real list \<Rightarrow> bool" where
  "chainOK L r \<longleftrightarrow> (\<forall>i. 1 \<le> i \<and> i < length r \<longrightarrow> \<bar>r ! i - r ! (i - 1)\<bar> \<le> L)"

definition circOK :: "real \<Rightarrow> real list \<Rightarrow> bool" where
  "circOK L r \<longleftrightarrow>
     (\<forall>i<length r. \<bar>r ! i - r ! ((i + length r - 1) mod length r)\<bar> \<le> L)"

text \<open>
  During the second pass the visited samples have only moved up, by no more than up to
  \<open>a - L\<close>, or only moved down, by no more than down to \<open>a + L\<close>, where \<open>a\<close> is
  the last sample.
\<close>

definition upBounds :: "real \<Rightarrow> real \<Rightarrow> real list \<Rightarrow> real list \<Rightarrow> nat \<Rightarrow> bool" where
  "upBounds L a r s k \<longleftrightarrow> (\<forall>j<k. r ! j \<le> s ! j \<and> s ! j \<le> max (r ! j) (a - L))"

definition downBounds :: "real \<Rightarrow> real \<Rightarrow> real list \<Rightarrow> real list \<Rightarrow> nat \<Rightarrow> bool" where
  "downBounds L a r s k \<longleftrightarrow> (\<forall>j<k. min (r ! j) (a + L) \<le> s ! j \<and> s ! j \<le> r ! j)"

text \<open>The kernel cache of a freshly loaded module.\<close>

definition emptyCache :: sg_cache where
  "emptyCache = (\<lambda>key. None)"

text \<open>
  The invariant of the kernel cache: a kernel stored under a key has the window size of the key
  as its length. The cache is private to the module, which only stores kernels it has computed.
\<close>

definition cacheOK :: "sg_cache \<Rightarrow> bool" where
  "cacheOK cache \<longleftrightarrow>
     (\<forall>windowSize order sp kern.
        cache (windowSize, order, sp) = Some kern \<longrightarrow> length kern = windowSize)"

text \<open>The window size after \<open>if (windowSize % 2 === 0) windowSize += 1\<close>.\<close>

definition oddWindow :: "nat \<Rightarrow> nat" where
  "oddWindow windowSize = (if windowSize mod 2 = 0 then windowSize + 1 else windowSize)"

text \<open>The body of the \<open>forEach\<close> that fills the index set up to the target count.\<close>

definition guardedAdd :: "nat \<Rightarrow> nat list \<Rightarrow> nat \<times> real \<Rightarrow> nat list" where
  "guardedAdd targetCount s entry = (if length s < targetCount then set_add (fst entry) s else s)"

text \<open>The progress values of a grid of the given size, in index order.\<close>

definition progressGrid :: "nat \<Rightarrow> real option list" where
  "progressGrid gridSize = map (targetProgress gridSize) [0..<gridSize]"

text \<open>Every grid of a list carries exactly these progress values.\<close>

definition gridsOK :: "nat \<Rightarrow> grid_point list list \<Rightarrow> bool" where
  "gridsOK gridSize gridList \<longleftrightarrow> (\<forall>grid\<in>set gridList. map progress grid = progressGrid gridSize)"

section \<open>Example inputs\<close>

text \<open>Concrete inputs on which the theorems below are instantiated.\<close>

definition exampleSampleA :: sample where
  "exampleSampleA = \<lparr>distance = 0, sample_x = Some 0, sample_y = Some 0, sample_z = None\<rparr>"

definition exampleSampleB :: sample where
  "exampleSampleB = \<lparr>distance = 10, sample_x = Some 10, sample_y = None, sample_z = Some 4\<rparr>"

definition exampleHeap :: heap where
  "exampleHeap = \<lparr>cells = (\<lambda>a. None)(0 \<mapsto> [5, 2], 1 \<mapsto> [3, 4]), next_addr = 2\<rparr>"

definition exampleCenterline :: "(real \<times> real) list" where
  "exampleCenterline = [(0, 0), (10, 0)]"

definition exampleNormals :: "(real \<times> real) list" where
  "exampleNormals = [(0, 1), (0, 1)]"

definition exampleLeftLaps :: "grid_point list list" where
  "exampleLeftLaps =
     [[\<lparr>progress = Some 0, point_x = 0, point_y = 4\<rparr>,
       \<lparr>progress = Some 1, point_x = 10, point_y = 3\<rparr>]]"

definition exampleRightLaps :: "grid_point list list" where
  "exampleRightLaps =
     [[\<lparr>progress = Some 0, point_x = 0, point_y = - 2\<rparr>,
       \<lparr>progress = Some 1, point_x = 10, point_y = - 5\<rparr>]]"

definition exampleEnforce :: "error + enforce_result" where
  "exampleEnforce =
     enforceWidthConstraints exampleHeap exampleCenterline exampleNormals exampleLeftLaps
       exampleRightLaps 0 1 1"

definition exampleHeapOne :: heap where
  "exampleHeapOne = \<lparr>cells = (\<lambda>a. None)(0 \<mapsto> [5], 1 \<mapsto> [5]), next_addr = 2\<rparr>"

definition exampleOnCenterline :: "error + enforce_result" where
  "exampleOnCenterline =
     enforceWidthConstraints exampleHeapOne [(0, 0)] [(0, 1)]
       [[\<lparr>progress = Some 0, point_x = 0, point_y = 0\<rparr>]] [] 0 1 1"

definition examplePoints :: "point list" where
  "examplePoints =
     [\<lparr>px = 0, py = 0\<rparr>, \<lparr>px = 4, py = 0\<rparr>, \<lparr>px = 6, py = 3\<rparr>,
      \<lparr>px = 4, py = 6\<rparr>, \<lparr>px = 0, py = 6\<rparr>]"

definition exampleLapA :: classified_lap where
  "exampleLapA = \<lparr>lap_type = Left, lap_samples = [exampleSampleA, exampleSampleB],
                   lap_filename = Some ''a.csv''\<rparr>"

definition exampleLapB :: classified_lap where
  "exampleLapB = \<lparr>lap_type = Left, lap_samples = [exampleSampleA, exampleSampleB],
                   lap_filename = Some ''b.csv''\<rparr>"

definition exampleOptions :: resample_options where
  "exampleOptions = \<lparr>opt_sampleCount = Some 3, opt_spacingMeters = 1 / 2,
                      opt_alignHeading = True\<rparr>"

definition exampleGrid :: "grid_point list" where
  "exampleGrid =
     [\<lparr>progress = Some 0, point_x = 0, point_y = 0\<rparr>,
      \<lparr>progress = Some (1 / 2), point_x = 5, point_y = 2\<rparr>,
      \<lparr>progress = Some 1, point_x = 10, point_y = 4\<rparr>]"

definition exampleRun :: "error + resample_result" where
  "exampleRun = resampleCalibrationLaps [exampleLapA, exampleLapB] exampleOptions"

text \<open>
  The widths \<open>[0.2, 5, 0.2]\<close> with spacing 1 and \<open>maxDeltaPer10m = 1\<close>, that is the
  per-sample limit 0.1, in double precision.
\<close>

definition exampleRoundedClamp :: width_delta_clamp where
  "exampleRoundedClamp = clampWidthDeltas float64 [float64 (1 / 5), 5, float64 (1 / 5)] [] 1 1 100"









section \<open>Properties of the resampler\<close>

lemma resampleOnGrid_length:
  "resampleOnGrid samples gridSize = Inr grid \<Longrightarrow> length grid = gridSize"
  by (auto simp: resampleOnGrid_def Let_def split: if_splits)

text \<open>
  C7: when the first and the last cumulative distance are equal (zero span), the progress array
  has the length of the input and every entry is exactly 0.
\<close>

theorem normalizeToProgress_zero_span:
  assumes "cumulativeDistance \<noteq> []"
    and "cumulativeDistance ! 0 = cumulativeDistance ! (length cumulativeDistance - 1)"
  shows "length (normalizeToProgress cumulativeDistance) = length cumulativeDistance
         \<and> (\<forall>i < length cumulativeDistance. normalizeToProgress cumulativeDistance ! i = 0)"
  using assms by (simp add: normalizeToProgress_def)

theorem normalizeToProgress_zero_span_witness:
  "[5, 7, 5 :: real] \<noteq> []
   \<and> [5, 7, 5 :: real] ! 0 = [5, 7, 5] ! (length [5, 7, 5 :: real] - 1)
   \<and> length (normalizeToProgress [5, 7, 5]) = 3
   \<and> normalizeToProgress [5, 7, 5] ! 0 = 0
   \<and> normalizeToProgress [5, 7, 5] ! 1 = 0
   \<and> normalizeToProgress [5, 7, 5] ! 2 = 0"
proof -
  have a: "[5, 7, 5 :: real] \<noteq> []" by simp
  have b: "[5, 7, 5 :: real] ! 0 = [5, 7, 5] ! (length [5, 7, 5 :: real] - 1)" by simp
  show ?thesis using a b normalizeToProgress_zero_span [OF a b] by simp
qed

text \<open>
  C6: \<open>resampleOnGrid\<close> throws exactly when fewer than two samples have both an x and a
  planar y coordinate; with at least two such samples it returns a grid (of \<open>gridSize\<close>
  points).
\<close>

theorem resampleOnGrid_throws_iff:
  "(isl (resampleOnGrid samples gridSize)
      \<longleftrightarrow> length (filter (\<lambda>s. sample_x s \<noteq> None \<and> getPlanarY s \<noteq> None) samples) < 2)
   \<and> (2 \<le> length (filter (\<lambda>s. sample_x s \<noteq> None \<and> getPlanarY s \<noteq> None) samples)
        \<longrightarrow> (\<exists>grid. resampleOnGrid samples gridSize = Inr grid \<and> length grid = gridSize))"
proof -
  have v: "filter (\<lambda>s. sample_x s \<noteq> None \<and> getPlanarY s \<noteq> None) samples
           = filter isValidSample samples"
    unfolding isValidSample_def ..
  show ?thesis
    unfolding v by (simp add: resampleOnGrid_def Let_def)
qed

theorem resampleOnGrid_throws_iff_witness:
  "2 \<le> length (filter (\<lambda>s. sample_x s \<noteq> None \<and> getPlanarY s \<noteq> None)
                 [exampleSampleA, exampleSampleB])
   \<and> (\<exists>grid. resampleOnGrid [exampleSampleA, exampleSampleB] 3 = Inr grid \<and> length grid = 3)
   \<and> \<not> isl (resampleOnGrid [exampleSampleA, exampleSampleB] 3)
   \<and> isl (resampleOnGrid [exampleSampleA] 3)"
  using resampleOnGrid_throws_iff [of "[exampleSampleA, exampleSampleB]" 3]
        resampleOnGrid_throws_iff [of "[exampleSampleA]" 3]
  by (simp add: exampleSampleA_def exampleSampleB_def getPlanarY_def)

section \<open>Properties of the constant-width envelope\<close>

lemma envelopeStep_fields:
  "length (env_left (envelopeStep hl hr sa mw tw st i)) = length (env_left st)"
  "length (env_right (envelopeStep hl hr sa mw tw st i)) = length (env_right st)"
  "env_lastInsideLeft (envelopeStep hl hr sa mw tw st i)
     = envelopeInsideLeft sa i (env_lastInsideLeft st)"
  by (simp_all add: envelopeStep_def Let_def split: prod.splits)

lemma envelopeStep_nth:
  assumes "i < length (env_left st)" "i < length (env_right st)"
  shows "env_left (envelopeStep hl hr sa mw tw st i) ! j =
           (if j = i then
              (let il = envelopeInsideLeft sa i (env_lastInsideLeft st);
                   io = envelopeSample mw tw (if il then js_at hl (int i) else js_at hr (int i))
               in if il then fst io else snd io)
            else env_left st ! j)"
    and "env_right (envelopeStep hl hr sa mw tw st i) ! j =
           (if j = i then
              (let il = envelopeInsideLeft sa i (env_lastInsideLeft st);
                   io = envelopeSample mw tw (if il then js_at hl (int i) else js_at hr (int i))
               in if il then snd io else fst io)
            else env_right st ! j)"
  using assms by (auto simp: envelopeStep_def Let_def split: prod.splits)

lemma envelope_fold:
  fixes hl hr sa mw tw n
  defines "init \<equiv> \<lparr>env_left = replicate n (Some 0), env_right = replicate n (Some 0),
                     env_insideLeftCount = 0, env_insideRightCount = 0,
                     env_lastInsideLeft = True\<rparr>"
  assumes "k \<le> n"
  shows "length (env_left (foldl (envelopeStep hl hr sa mw tw) init [0..<k])) = n
       \<and> length (env_right (foldl (envelopeStep hl hr sa mw tw) init [0..<k])) = n
       \<and> env_lastInsideLeft (foldl (envelopeStep hl hr sa mw tw) init [0..<k])
           = (case k of 0 \<Rightarrow> True | Suc j \<Rightarrow> insideLeftAt sa j)
       \<and> (\<forall>j<k. env_left (foldl (envelopeStep hl hr sa mw tw) init [0..<k]) ! j
                    = fst (envelopeExpected hl hr sa mw tw j)
                \<and> env_right (foldl (envelopeStep hl hr sa mw tw) init [0..<k]) ! j
                    = snd (envelopeExpected hl hr sa mw tw j))"
  using assms(2)
proof (induction k)
  case 0
  then show ?case by (simp add: init_def)
next
  case (Suc k)
  let ?st = "foldl (envelopeStep hl hr sa mw tw) init [0..<k]"
  from Suc have IH: "length (env_left ?st) = n" "length (env_right ?st) = n"
    "env_lastInsideLeft ?st = (case k of 0 \<Rightarrow> True | Suc j \<Rightarrow> insideLeftAt sa j)"
    "\<forall>j<k. env_left ?st ! j = fst (envelopeExpected hl hr sa mw tw j)
          \<and> env_right ?st ! j = snd (envelopeExpected hl hr sa mw tw j)"
    by simp_all
  have kn: "k < n" using Suc.prems by simp
  have il: "envelopeInsideLeft sa k (env_lastInsideLeft ?st) = insideLeftAt sa k"
    unfolding IH(3) by (cases k) simp_all
  have step: "foldl (envelopeStep hl hr sa mw tw) init [0..<Suc k]
              = envelopeStep hl hr sa mw tw ?st k"
    by simp
  show ?case
    unfolding step
    using IH kn il
    by (auto simp: envelopeStep_fields envelopeStep_nth envelopeExpected_def Let_def less_Suc_eq)
qed

text \<open>
  C3 (amended): at every sample \<open>i\<close> whose raw inside width exists, the inside half-width
  is the raw inside width clamped at 0 from below, and the outside half-width is
  \<open>max(insideHalf * 0.4, desiredTotal - insideHalf, 0.75)\<close>, where \<open>desiredTotal\<close>
  is \<open>max(minWidth, targetWidth * 0.95)\<close> for a non-zero target width and
  \<open>max(6, 2 * insideHalf)\<close> for the target width 0; \<open>minWidth\<close> is the target width
  when positive and 6 otherwise.
\<close>

theorem buildConstantWidthEnvelope_sample:
  assumes "i < length halfWidthLeft"
    and "\<not> insideLeftAt signedAngles i \<Longrightarrow> i < length halfWidthRight"
  shows
    "let res = buildConstantWidthEnvelope halfWidthLeft halfWidthRight signedAngles targetWidth;
         insideLeft = insideLeftAt signedAngles i;
         insideHalf = max 0 (if insideLeft then halfWidthLeft ! i else halfWidthRight ! i);
         minWidth = (if targetWidth > 0 then targetWidth else 6);
         desiredTotal = max minWidth (if targetWidth \<noteq> 0 then targetWidth * (95 / 100)
                                      else insideHalf * 2);
         outsideHalf = max (max (insideHalf * (4 / 10)) (desiredTotal - insideHalf)) (75 / 100)
     in envelope_halfWidthLeft res ! i = Some (if insideLeft then insideHalf else outsideHalf)
        \<and> envelope_halfWidthRight res ! i = Some (if insideLeft then outsideHalf else insideHalf)"
proof -
  let ?n = "length halfWidthLeft"
  let ?mw = "if targetWidth > 0 then targetWidth else 6"
  have F: "\<forall>j<?n.
      envelope_halfWidthLeft
        (buildConstantWidthEnvelope halfWidthLeft halfWidthRight signedAngles targetWidth) ! j
        = fst (envelopeExpected halfWidthLeft halfWidthRight signedAngles ?mw targetWidth j)
    \<and> envelope_halfWidthRight
        (buildConstantWidthEnvelope halfWidthLeft halfWidthRight signedAngles targetWidth) ! j
        = snd (envelopeExpected halfWidthLeft halfWidthRight signedAngles ?mw targetWidth j)"
    using envelope_fold [of ?n ?n halfWidthLeft halfWidthRight signedAngles ?mw targetWidth]
    by (simp add: buildConstantWidthEnvelope_def Let_def)
  have raw: "(if insideLeftAt signedAngles i then js_at halfWidthLeft (int i)
              else js_at halfWidthRight (int i))
             = Some (if insideLeftAt signedAngles i then halfWidthLeft ! i else halfWidthRight ! i)"
    using assms by (simp add: js_at_def)
  have E: "envelopeExpected halfWidthLeft halfWidthRight signedAngles ?mw targetWidth i
           = (let insideLeft = insideLeftAt signedAngles i;
                  insideHalf = max 0 (if insideLeft then halfWidthLeft ! i else halfWidthRight ! i);
                  desiredTotal = max ?mw (if targetWidth \<noteq> 0 then targetWidth * (95 / 100)
                                          else insideHalf * 2);
                  outsideHalf = max (max (insideHalf * (4 / 10)) (desiredTotal - insideHalf))
                                    (75 / 100)
              in (Some (if insideLeft then insideHalf else outsideHalf),
                  Some (if insideLeft then outsideHalf else insideHalf)))"
    unfolding envelopeExpected_def Let_def raw envelopeSample_def
    by (simp add: max_def)
  from F assms(1) have
    "envelope_halfWidthLeft
        (buildConstantWidthEnvelope halfWidthLeft halfWidthRight signedAngles targetWidth) ! i
        = fst (envelopeExpected halfWidthLeft halfWidthRight signedAngles ?mw targetWidth i)"
    "envelope_halfWidthRight
        (buildConstantWidthEnvelope halfWidthLeft halfWidthRight signedAngles targetWidth) ! i
        = snd (envelopeExpected halfWidthLeft halfWidthRight signedAngles ?mw targetWidth i)"
    by simp_all
  then show ?thesis
    unfolding E Let_def by simp
qed


text \<open>
  With the target width 0 and an inside width of 10 the code gives the outside 10, where the
  formula of the specification gives 4; a negative raw inside width is replaced by 0.
\<close>

theorem buildConstantWidthEnvelope_counterexample:
  "envelope_halfWidthRight (buildConstantWidthEnvelope [10, - 1] [10, 5] None 0) ! 0 = Some 10
   \<and> envelope_halfWidthRight (buildConstantWidthEnvelope [10, - 1] [10, 5] None 0) ! 0
       \<noteq> Some (claimedOutsideHalf 0 ([10, - 1] ! 0))
   \<and> envelope_halfWidthLeft (buildConstantWidthEnvelope [10, - 1] [10, 5] None 0) ! 1 = Some 0
   \<and> envelope_halfWidthLeft (buildConstantWidthEnvelope [10, - 1] [10, 5] None 0) ! 1
       \<noteq> Some ([10, - 1] ! 1)"
  by (simp add: buildConstantWidthEnvelope_def envelopeStep_def envelopeInsideLeft_def
        envelopeSample_def claimedOutsideHalf_def Let_def js_at_def upt_rec)

theorem buildConstantWidthEnvelope_sample_witness:
  "envelope_halfWidthLeft (buildConstantWidthEnvelope [3, 2] [4, 1] (Some [1 / 2, - (1 / 2)]) 8) ! 1
     = Some 7
   \<and> envelope_halfWidthRight (buildConstantWidthEnvelope [3, 2] [4, 1] (Some [1 / 2, - (1 / 2)]) 8) ! 1
     = Some 1"
  using buildConstantWidthEnvelope_sample [of 1 "[3, 2]" "Some [1 / 2, - (1 / 2)]" "[4, 1]" 8]
  by (simp add: envelopeInsideLeft_def js_at_def Let_def)

section \<open>Properties of the constraint enforcer\<close>

lemma pointwise_le_refl: "pointwise_le xs xs"
  by (simp add: pointwise_le_def)

lemma pointwise_le_trans: "pointwise_le zs ys \<Longrightarrow> pointwise_le ys xs \<Longrightarrow> pointwise_le zs xs"
  by (fastforce simp: pointwise_le_def)

lemma limitLoop_fold:
  "limitLoop negate laps i center (Some nrm) limit
     = Inr (fold max (rawProjections negate laps i center nrm) limit)"
proof (induction laps arbitrary: limit)
  case Nil
  then show ?case by (simp add: rawProjections_def map_filter_simps)
next
  case (Cons lap laps)
  show ?case
  proof (cases "js_at lap (int i)")
    case None
    then show ?thesis using Cons.IH by (simp add: rawProjections_def map_filter_simps)
  next
    case (Some point)
    then show ?thesis using Cons.IH
      by (simp add: rawProjections_def map_filter_simps Let_def max_def)
  qed
qed

lemma limitLoop_Max:
  "limitLoop negate laps i center (Some nrm) limit
     = Inr (Max (set (limit # rawProjections negate laps i center nrm)))"
  by (simp only: limitLoop_fold Max.set_eq_fold)

lemma heap_write_cells_other: "b \<noteq> a \<Longrightarrow> cells (heap_write h a i v) b = cells h b"
  by (simp add: heap_write_def split: option.splits)

lemma heap_write_next: "next_addr (heap_write h a i v) = next_addr h"
  by (simp add: heap_write_def split: option.splits)

lemma heap_read_write_same:
  "heap_read (heap_write h a i v) a = (heap_read h a)[i := v]"
  by (auto simp: heap_write_def heap_read_def list_update_beyond split: option.splits)

lemma heap_read_write_other: "b \<noteq> a \<Longrightarrow> heap_read (heap_write h a i v) b = heap_read h b"
  by (simp add: heap_read_def heap_write_cells_other)

lemma clampSide_frame:
  assumes "clampSide negate laps sc i center normal res (h, s) = Inr (h', s')"
  shows "\<forall>b. b \<noteq> res \<longrightarrow> cells h' b = cells h b"
  using assms
  by (auto simp: clampSide_def Let_def heap_write_cells_other split: if_splits sum.splits)

lemma clampSide_decreases:
  assumes "clampSide negate laps sc i center normal res (h, s) = Inr (h', s')"
  shows "pointwise_le (heap_read h' res) (heap_read h res)"
  using assms
  by (auto simp: clampSide_def Let_def heap_read_write_same pointwise_le_def js_at_def
        nth_list_update split: if_splits sum.splits option.splits)

lemma clampSide_bound:
  assumes "clampSide negate laps sc i center normal res (h, s) = Inr (h', s')"
    and "laps \<noteq> []"
    and "limitLoop negate laps i center normal 0 = Inr limit0"
    and "0 < limit0 * sc"
    and "i < length (heap_read h res)"
  shows "heap_read h' res ! i \<le> limit0 * sc"
  using assms
  by (auto simp: clampSide_def Let_def heap_read_write_same js_at_def
        split: if_splits option.splits)

lemma enforceStep_props:
  assumes step: "enforceStep centerline normals leftLaps rightLaps sc aL aR i st = Inr st'"
    and ne: "aL \<noteq> aR"
  shows "\<forall>b. b \<noteq> aL \<and> b \<noteq> aR \<longrightarrow> cells (es_heap st') b = cells (es_heap st) b"
    and "pointwise_le (heap_read (es_heap st') aL) (heap_read (es_heap st) aL)"
    and "pointwise_le (heap_read (es_heap st') aR) (heap_read (es_heap st) aR)"
    and "\<lbrakk>leftLaps \<noteq> []; limitLoop False leftLaps i (centerline ! i) (js_at normals (int i)) 0 = Inr l0;
          0 < l0 * sc; i < length (heap_read (es_heap st) aL)\<rbrakk>
         \<Longrightarrow> heap_read (es_heap st') aL ! i \<le> l0 * sc"
    and "\<lbrakk>rightLaps \<noteq> []; limitLoop True rightLaps i (centerline ! i) (js_at normals (int i)) 0 = Inr r0;
          0 < r0 * sc; i < length (heap_read (es_heap st) aR)\<rbrakk>
         \<Longrightarrow> heap_read (es_heap st') aR ! i \<le> r0 * sc"
proof -
  from step obtain h1 sL sR where
    L: "clampSide False leftLaps sc i (centerline ! i) (js_at normals (int i)) aL
          (es_heap st, es_left st) = Inr (h1, sL)"
    and R: "clampSide True rightLaps sc i (centerline ! i) (js_at normals (int i)) aR
          (h1, es_right st) = Inr (es_heap st', sR)"
    by (auto simp: enforceStep_def Let_def split: sum.splits prod.splits)
  note fL = clampSide_frame [OF L] and fR = clampSide_frame [OF R]
  note dL = clampSide_decreases [OF L] and dR = clampSide_decreases [OF R]
  have rL: "heap_read (es_heap st') aL = heap_read h1 aL"
    using fR ne by (simp add: heap_read_def)
  have rR: "heap_read h1 aR = heap_read (es_heap st) aR"
    using fL ne by (simp add: heap_read_def)
  show "\<forall>b. b \<noteq> aL \<and> b \<noteq> aR \<longrightarrow> cells (es_heap st') b = cells (es_heap st) b"
    using fL fR by simp
  show "pointwise_le (heap_read (es_heap st') aL) (heap_read (es_heap st) aL)"
    using dL rL by simp
  show "pointwise_le (heap_read (es_heap st') aR) (heap_read (es_heap st) aR)"
    using dR rR by simp
  show "heap_read (es_heap st') aL ! i \<le> l0 * sc"
    if "leftLaps \<noteq> []" "limitLoop False leftLaps i (centerline ! i) (js_at normals (int i)) 0 = Inr l0"
       "0 < l0 * sc" "i < length (heap_read (es_heap st) aL)"
    using clampSide_bound [OF L that] rL by simp
  show "heap_read (es_heap st') aR ! i \<le> r0 * sc"
    if "rightLaps \<noteq> []" "limitLoop True rightLaps i (centerline ! i) (js_at normals (int i)) 0 = Inr r0"
       "0 < r0 * sc" "i < length (heap_read (es_heap st) aR)"
    using clampSide_bound [OF R that(1,2,3)] that(4) rR by simp
qed

lemma enforceLoop_props:
  assumes "enforceLoop centerline normals leftLaps rightLaps sc aL aR idxs st = Inr st'"
    and ne: "aL \<noteq> aR"
  shows "(\<forall>b. b \<noteq> aL \<and> b \<noteq> aR \<longrightarrow> cells (es_heap st') b = cells (es_heap st) b)
       \<and> pointwise_le (heap_read (es_heap st') aL) (heap_read (es_heap st) aL)
       \<and> pointwise_le (heap_read (es_heap st') aR) (heap_read (es_heap st) aR)
       \<and> (\<forall>i\<in>set idxs. \<forall>l0. leftLaps \<noteq> []
              \<and> limitLoop False leftLaps i (centerline ! i) (js_at normals (int i)) 0 = Inr l0
              \<and> 0 < l0 * sc \<and> i < length (heap_read (es_heap st) aL)
            \<longrightarrow> heap_read (es_heap st') aL ! i \<le> l0 * sc)
       \<and> (\<forall>i\<in>set idxs. \<forall>r0. rightLaps \<noteq> []
              \<and> limitLoop True rightLaps i (centerline ! i) (js_at normals (int i)) 0 = Inr r0
              \<and> 0 < r0 * sc \<and> i < length (heap_read (es_heap st) aR)
            \<longrightarrow> heap_read (es_heap st') aR ! i \<le> r0 * sc)"
  using assms(1)
proof (induction idxs arbitrary: st)
  case Nil
  then show ?case by (simp add: pointwise_le_refl)
next
  case (Cons i rest)
  from Cons.prems obtain st1 where
    s1: "enforceStep centerline normals leftLaps rightLaps sc aL aR i st = Inr st1"
    and s2: "enforceLoop centerline normals leftLaps rightLaps sc aL aR rest st1 = Inr st'"
    by (auto split: sum.splits)
  note P = enforceStep_props [OF s1 ne]
  note IH = Cons.IH [OF s2]
  have lenL: "length (heap_read (es_heap st1) aL) = length (heap_read (es_heap st) aL)"
    and lenR: "length (heap_read (es_heap st1) aR) = length (heap_read (es_heap st) aR)"
    using P(2,3) by (simp_all add: pointwise_le_def)
  have frame: "\<forall>b. b \<noteq> aL \<and> b \<noteq> aR \<longrightarrow> cells (es_heap st') b = cells (es_heap st) b"
    using P(1) IH by simp
  have dL: "pointwise_le (heap_read (es_heap st') aL) (heap_read (es_heap st) aL)"
    using IH P(2) pointwise_le_trans by blast
  have dR: "pointwise_le (heap_read (es_heap st') aR) (heap_read (es_heap st) aR)"
    using IH P(3) pointwise_le_trans by blast
  have bL: "heap_read (es_heap st') aL ! j \<le> l0 * sc"
    if "j \<in> set (i # rest)" "leftLaps \<noteq> []"
       "limitLoop False leftLaps j (centerline ! j) (js_at normals (int j)) 0 = Inr l0"
       "0 < l0 * sc" "j < length (heap_read (es_heap st) aL)" for j l0
  proof (cases "j \<in> set rest")
    case True
    then show ?thesis using IH that lenL by auto
  next
    case False
    then have "j = i" using that(1) by simp
    then have "heap_read (es_heap st1) aL ! j \<le> l0 * sc"
      using P(4) that by simp
    moreover have "heap_read (es_heap st') aL ! j \<le> heap_read (es_heap st1) aL ! j"
      using IH that(5) lenL by (simp add: pointwise_le_def)
    ultimately show ?thesis by simp
  qed
  have bR: "heap_read (es_heap st') aR ! j \<le> r0 * sc"
    if "j \<in> set (i # rest)" "rightLaps \<noteq> []"
       "limitLoop True rightLaps j (centerline ! j) (js_at normals (int j)) 0 = Inr r0"
       "0 < r0 * sc" "j < length (heap_read (es_heap st) aR)" for j r0
  proof (cases "j \<in> set rest")
    case True
    then show ?thesis using IH that lenR by auto
  next
    case False
    then have "j = i" using that(1) by simp
    then have "heap_read (es_heap st1) aR ! j \<le> r0 * sc"
      using P(5) that by simp
    moreover have "heap_read (es_heap st') aR ! j \<le> heap_read (es_heap st1) aR ! j"
      using IH that(5) lenR by (simp add: pointwise_le_def)
    ultimately show ?thesis by simp
  qed
  show ?case
    using frame dL dR bL bR by blast
qed

lemma enforceStart_read:
  assumes "hwL < next_addr h" "hwR < next_addr h"
  shows "heap_read (es_heap (enforceStart h hwL hwR)) (next_addr h) = heap_read h hwL"
    and "heap_read (es_heap (enforceStart h hwL hwR)) (Suc (next_addr h)) = heap_read h hwR"
    and "\<forall>a<next_addr h. cells (es_heap (enforceStart h hwL hwR)) a = cells h a"
  using assms by (simp_all add: enforceStart_def heap_read_def)

lemma enforceWidthConstraints_unfold:
  assumes run: "enforceWidthConstraints h centerline normals leftLaps rightLaps hwL hwR clampScale
                  = Inr res"
    and aL: "hwL < next_addr h" and aR: "hwR < next_addr h"
  shows "\<exists>st'.
           enforceLoop centerline normals leftLaps rightLaps (max (1 / 10) (min clampScale 1))
             (next_addr h) (Suc (next_addr h)) [0..<length centerline] (enforceStart h hwL hwR)
             = Inr st'
         \<and> out_heap res = es_heap st'
         \<and> out_halfWidthLeft res = next_addr h
         \<and> out_halfWidthRight res = Suc (next_addr h)"
proof -
  have r: "heap_read (h\<lparr>cells := (cells h)(next_addr h \<mapsto> heap_read h hwL),
                         next_addr := Suc (next_addr h)\<rparr>) hwR = heap_read h hwR"
    using aR by (simp add: heap_read_def)
  show ?thesis
    using run
    by (auto simp: enforceWidthConstraints_def new_Float64Array_def Let_def r enforceStart_def
          split: sum.splits)
qed

text \<open>
  C10: \<open>enforceWidthConstraints\<close> never increases a half-width and leaves its input arrays
  alone. The arrays returned are freshly allocated, every array allocated before the call
  (the inputs among them) has the contents it had, the arrays returned have the lengths of the
  inputs and are nowhere above them.
\<close>

theorem enforceWidthConstraints_never_increases:
  assumes run: "enforceWidthConstraints h centerline normals leftLaps rightLaps hwL hwR clampScale
                  = Inr res"
    and aL: "hwL < next_addr h" and aR: "hwR < next_addr h"
  shows "(\<forall>a<next_addr h. cells (out_heap res) a = cells h a)
       \<and> next_addr h \<le> out_halfWidthLeft res
       \<and> next_addr h \<le> out_halfWidthRight res
       \<and> length (resultLeft res) = length (heap_read h hwL)
       \<and> (\<forall>i<length (heap_read h hwL). resultLeft res ! i \<le> heap_read h hwL ! i)
       \<and> length (resultRight res) = length (heap_read h hwR)
       \<and> (\<forall>i<length (heap_read h hwR). resultRight res ! i \<le> heap_read h hwR ! i)"
proof -
  from enforceWidthConstraints_unfold [OF assms] obtain st' where
    loop: "enforceLoop centerline normals leftLaps rightLaps (max (1 / 10) (min clampScale 1))
             (next_addr h) (Suc (next_addr h)) [0..<length centerline] (enforceStart h hwL hwR)
             = Inr st'"
    and out: "out_heap res = es_heap st'" "out_halfWidthLeft res = next_addr h"
      "out_halfWidthRight res = Suc (next_addr h)"
    by blast
  note init = enforceStart_read [OF aL aR]
  have ne: "next_addr h \<noteq> Suc (next_addr h)" by simp
  note P = enforceLoop_props [OF loop ne]
  have frame: "\<forall>a<next_addr h. cells (out_heap res) a = cells h a"
    using P init(3) out(1) by auto
  have L: "pointwise_le (resultLeft res) (heap_read h hwL)"
    using P init(1) out by (simp add: resultLeft_def)
  have R: "pointwise_le (resultRight res) (heap_read h hwR)"
    using P init(2) out by (simp add: resultRight_def)
  show ?thesis
    using frame L R out by (simp add: pointwise_le_def)
qed

text \<open>
  C1 (amended): for a clamp scale in \<open>[0.1, 1]\<close> and a sample \<open>i\<close> at which some raw
  lap of the side has a point and the largest projection of these points onto the normal is
  positive, the half-width returned is at most that largest projection times the clamp scale.
\<close>

theorem enforceWidthConstraints_within_raw_envelope:
  assumes run: "enforceWidthConstraints h centerline normals leftLaps rightLaps hwL hwR clampScale
                  = Inr res"
    and aL: "hwL < next_addr h" and aR: "hwR < next_addr h"
    and scale: "1 / 10 \<le> clampScale" "clampScale \<le> 1"
    and i: "i < length centerline" "i < length normals"
  shows "(i < length (heap_read h hwL)
          \<and> rawProjections False leftLaps i (centerline ! i) (normals ! i) \<noteq> []
          \<and> 0 < Max (set (rawProjections False leftLaps i (centerline ! i) (normals ! i)))
          \<longrightarrow> resultLeft res ! i
                \<le> Max (set (rawProjections False leftLaps i (centerline ! i) (normals ! i)))
                   * clampScale)
       \<and> (i < length (heap_read h hwR)
          \<and> rawProjections True rightLaps i (centerline ! i) (normals ! i) \<noteq> []
          \<and> 0 < Max (set (rawProjections True rightLaps i (centerline ! i) (normals ! i)))
          \<longrightarrow> resultRight res ! i
                \<le> Max (set (rawProjections True rightLaps i (centerline ! i) (normals ! i)))
                   * clampScale)"
proof -
  from enforceWidthConstraints_unfold [OF run aL aR] obtain st' where
    loop: "enforceLoop centerline normals leftLaps rightLaps (max (1 / 10) (min clampScale 1))
             (next_addr h) (Suc (next_addr h)) [0..<length centerline] (enforceStart h hwL hwR)
             = Inr st'"
    and out: "out_heap res = es_heap st'" "out_halfWidthLeft res = next_addr h"
      "out_halfWidthRight res = Suc (next_addr h)"
    by blast
  note init = enforceStart_read [OF aL aR]
  have sc: "max (1 / 10) (min clampScale 1) = clampScale"
    using scale by simp
  have ne: "next_addr h \<noteq> Suc (next_addr h)" by simp
  note P = enforceLoop_props [OF loop ne, unfolded sc]
  have nrm: "js_at normals (int i) = Some (normals ! i)"
    using i(2) by (simp add: js_at_def)
  have mem: "i \<in> set [0..<length centerline]" using i(1) by simp
  have bound: "heap_read (es_heap st') a ! i \<le> Max (set projs) * clampScale"
    if "projs = rawProjections negate laps i (centerline ! i) (normals ! i)"
      "projs \<noteq> []" "0 < Max (set projs)"
      "\<And>l0. \<lbrakk>laps \<noteq> []; limitLoop negate laps i (centerline ! i) (js_at normals (int i)) 0 = Inr l0;
              0 < l0 * clampScale\<rbrakk> \<Longrightarrow> heap_read (es_heap st') a ! i \<le> l0 * clampScale"
    for a projs negate laps
  proof -
    have laps: "laps \<noteq> []"
      using that(1,2) by (auto simp: rawProjections_def map_filter_simps)
    have M: "Max (set (0 # projs)) = Max (set projs)"
      using that(2,3) by (simp add: max_def)
    have lim: "limitLoop negate laps i (centerline ! i) (js_at normals (int i)) 0
               = Inr (Max (set projs))"
      unfolding nrm limitLoop_Max that(1) [symmetric] M ..
    have pos: "0 < Max (set projs) * clampScale"
      using that(3) scale(1) by simp
    show ?thesis using that(4) [OF laps lim pos] .
  qed
  show ?thesis
  proof (intro conjI impI)
    assume A: "i < length (heap_read h hwL)
          \<and> rawProjections False leftLaps i (centerline ! i) (normals ! i) \<noteq> []
          \<and> 0 < Max (set (rawProjections False leftLaps i (centerline ! i) (normals ! i)))"
    have "heap_read (es_heap st') (next_addr h) ! i
          \<le> Max (set (rawProjections False leftLaps i (centerline ! i) (normals ! i))) * clampScale"
      by (rule bound [OF refl]) (use A P mem init(1) in auto)
    then show "resultLeft res ! i
          \<le> Max (set (rawProjections False leftLaps i (centerline ! i) (normals ! i))) * clampScale"
      by (simp add: resultLeft_def out)
  next
    assume A: "i < length (heap_read h hwR)
          \<and> rawProjections True rightLaps i (centerline ! i) (normals ! i) \<noteq> []
          \<and> 0 < Max (set (rawProjections True rightLaps i (centerline ! i) (normals ! i)))"
    have "heap_read (es_heap st') (Suc (next_addr h)) ! i
          \<le> Max (set (rawProjections True rightLaps i (centerline ! i) (normals ! i))) * clampScale"
      by (rule bound [OF refl]) (use A P mem init(2) in auto)
    then show "resultRight res ! i
          \<le> Max (set (rawProjections True rightLaps i (centerline ! i) (normals ! i))) * clampScale"
      by (simp add: resultRight_def out)
  qed
qed

lemmas example_enforce_defs =
  exampleEnforce_def enforceWidthConstraints_def new_Float64Array_def exampleHeap_def
  exampleCenterline_def exampleNormals_def exampleLeftLaps_def exampleRightLaps_def
  enforceStep_def clampSide_def projectOntoNormal_def js_at_def heap_read_def heap_write_def
  resultLeft_def resultRight_def Let_def

lemma upt_2: "[0..<2] = [0, 1]"
  by (simp add: upt_rec)

lemma exampleEnforce_returns: "exampleEnforce = Inr (projr exampleEnforce)"
  by (simp add: example_enforce_defs upt_2)

lemma exampleEnforce_left: "resultLeft (projr exampleEnforce) = [4, 2]"
  by (simp add: example_enforce_defs upt_2)

lemma exampleEnforce_right: "resultRight (projr exampleEnforce) = [2, 4]"
  by (simp add: example_enforce_defs upt_2)

lemma clampSide_returns:
  "\<exists>hs'. clampSide negate laps sc i center (Some nrm) res hs = Inr hs'"
  by (simp add: clampSide_def limitLoop_fold Let_def)

lemma enforceStep_returns:
  assumes "i < length normals"
  shows "\<exists>st'. enforceStep centerline normals leftLaps rightLaps sc aL aR i st = Inr st'"
proof -
  have nrm: "js_at normals (int i) = Some (normals ! i)"
    using assms by (simp add: js_at_def)
  obtain h1 sL where L: "clampSide False leftLaps sc i (centerline ! i) (Some (normals ! i)) aL
      (es_heap st, es_left st) = Inr (h1, sL)"
    using clampSide_returns by (metis surj_pair)
  obtain h2 sR where R: "clampSide True rightLaps sc i (centerline ! i) (Some (normals ! i)) aR
      (h1, es_right st) = Inr (h2, sR)"
    using clampSide_returns by (metis surj_pair)
  show ?thesis
    by (simp add: enforceStep_def Let_def nrm L R)
qed

lemma enforceLoop_returns:
  assumes "\<forall>i\<in>set idxs. i < length normals"
  shows "\<exists>st'. enforceLoop centerline normals leftLaps rightLaps sc aL aR idxs st = Inr st'"
  using assms
proof (induction idxs arbitrary: st)
  case Nil
  then show ?case by simp
next
  case (Cons i rest)
  then obtain st1 where
    "enforceStep centerline normals leftLaps rightLaps sc aL aR i st = Inr st1"
    using enforceStep_returns [of i normals centerline leftLaps rightLaps sc aL aR st] by auto
  then show ?case using Cons by simp
qed

lemma enforceLoop_not_Inl:
  assumes "\<forall>i\<in>set idxs. i < length normals"
  shows "enforceLoop centerline normals leftLaps rightLaps sc aL aR idxs st \<noteq> Inl e"
  using enforceLoop_returns [OF assms, of centerline leftLaps rightLaps sc aL aR st] by auto

lemma enforceWidthConstraints_returns:
  assumes "length centerline \<le> length normals"
  shows "\<exists>res. enforceWidthConstraints h centerline normals leftLaps rightLaps hwL hwR clampScale
           = Inr res"
proof -
  have all: "\<forall>i\<in>set [0..<length centerline]. i < length normals"
    using assms by simp
  show ?thesis
    unfolding enforceWidthConstraints_def Let_def new_Float64Array_def
    by (simp add: enforceLoop_not_Inl [OF all] split: sum.splits)
qed

theorem enforceWidthConstraints_never_increases_witness:
  "(0 :: addr) < next_addr exampleHeap \<and> (1 :: addr) < next_addr exampleHeap
   \<and> exampleEnforce = Inr (projr exampleEnforce)
   \<and> cells (out_heap (projr exampleEnforce)) 0 = cells exampleHeap 0
   \<and> cells (out_heap (projr exampleEnforce)) 1 = cells exampleHeap 1
   \<and> length (resultLeft (projr exampleEnforce)) = length (heap_read exampleHeap 0)
   \<and> resultLeft (projr exampleEnforce) ! 0 \<le> heap_read exampleHeap 0 ! 0
   \<and> resultRight (projr exampleEnforce) ! 1 \<le> heap_read exampleHeap 1 ! 1"
proof -
  have a: "(0 :: addr) < next_addr exampleHeap" "(1 :: addr) < next_addr exampleHeap"
    by (simp_all add: exampleHeap_def)
  have len: "length (heap_read exampleHeap 0) = 2" "length (heap_read exampleHeap 1) = 2"
    by (simp_all add: exampleHeap_def heap_read_def)
  note T = enforceWidthConstraints_never_increases
    [OF exampleEnforce_returns [unfolded exampleEnforce_def] a, folded exampleEnforce_def]
  show ?thesis
    using a T len exampleEnforce_returns by simp
qed

theorem enforceWidthConstraints_within_raw_envelope_witness:
  "(0 :: addr) < next_addr exampleHeap \<and> (1 :: addr) < next_addr exampleHeap
   \<and> exampleEnforce = Inr (projr exampleEnforce)
   \<and> rawProjections False exampleLeftLaps 0 (exampleCenterline ! 0) (exampleNormals ! 0) = [4]
   \<and> rawProjections True exampleRightLaps 0 (exampleCenterline ! 0) (exampleNormals ! 0) = [2]
   \<and> resultLeft (projr exampleEnforce) ! 0 \<le> 4 * 1
   \<and> resultRight (projr exampleEnforce) ! 0 \<le> 2 * 1"
proof -
  have a: "(0 :: addr) < next_addr exampleHeap" "(1 :: addr) < next_addr exampleHeap"
    by (simp_all add: exampleHeap_def)
  have len: "length (heap_read exampleHeap 0) = 2" "length (heap_read exampleHeap 1) = 2"
    by (simp_all add: exampleHeap_def heap_read_def)
  have i: "0 < length exampleCenterline" "0 < length exampleNormals"
    by (simp_all add: exampleCenterline_def exampleNormals_def)
  have pL: "rawProjections False exampleLeftLaps 0 (exampleCenterline ! 0) (exampleNormals ! 0) = [4]"
    and pR: "rawProjections True exampleRightLaps 0 (exampleCenterline ! 0) (exampleNormals ! 0) = [2]"
    by (simp_all add: rawProjections_def map_filter_simps example_enforce_defs)
  have s: "(1 :: real) / 10 \<le> 1" "(1 :: real) \<le> 1" by simp_all
  note T = enforceWidthConstraints_within_raw_envelope
    [OF exampleEnforce_returns [unfolded exampleEnforce_def] a s i, folded exampleEnforce_def]
  have ne: "heap_read exampleHeap 0 \<noteq> []" "heap_read exampleHeap 1 \<noteq> []"
    using len by auto
  show ?thesis
    using a T ne pL pR exampleEnforce_returns by simp
qed

text \<open>
  Where the largest projection is not positive the guard \<open>limit > 0\<close> leaves the
  half-width as it is: a raw point on the centreline projects to 0, and the width 5 stays.
\<close>

theorem enforceWidthConstraints_within_raw_envelope_counterexample:
  "exampleOnCenterline = Inr (projr exampleOnCenterline)
   \<and> resultLeft (projr exampleOnCenterline) ! 0 = 5
   \<and> Max (set (rawProjections False [[\<lparr>progress = Some 0, point_x = 0, point_y = 0\<rparr>]] 0
                  (0, 0) (0, 1))) * 1 = 0
   \<and> \<not> resultLeft (projr exampleOnCenterline) ! 0
         \<le> Max (set (rawProjections False [[\<lparr>progress = Some 0, point_x = 0, point_y = 0\<rparr>]] 0
                        (0, 0) (0, 1))) * 1"
  by (simp add: exampleOnCenterline_def exampleHeapOne_def rawProjections_def map_filter_simps
        enforceWidthConstraints_def new_Float64Array_def enforceStep_def clampSide_def
        projectOntoNormal_def js_at_def heap_read_def heap_write_def resultLeft_def Let_def)

section \<open>Properties of the Savitzky-Golay smoothing\<close>

lemma oddWindow_half: "2 * (oddWindow w div 2) + 1 = oddWindow w"
  unfolding oddWindow_def by (cases "w mod 2 = 0") presburger+

lemma multiplyMatrices_length: "length (multiplyMatrices a b) = length a"
  by (simp add: multiplyMatrices_def Let_def)

lemma multiplyMatrices_row_length:
  "i < length a \<Longrightarrow> length (multiplyMatrices a b ! i) = length (b ! 0)"
  by (simp add: multiplyMatrices_def Let_def)

lemma transposeMatrix_length: "length (transposeMatrix m) = length (m ! 0)"
  by (simp add: transposeMatrix_def Let_def)

lemma transposeMatrix_row_length:
  "j < length (m ! 0) \<Longrightarrow> length (transposeMatrix m ! j) = length m"
  by (simp add: transposeMatrix_def Let_def)

lemma invertMatrix_length: "invertMatrix m = Inr minv \<Longrightarrow> length minv = length m"
  by (auto simp: invertMatrix_def Let_def split: sum.splits)

lemma designMatrix_length: "length (designMatrix w order sp) = 2 * (w div 2) + 1"
  by (simp add: designMatrix_def Let_def)

lemma designMatrix_row0: "length (designMatrix w order sp ! 0) = order + 1"
proof -
  have "[- int (w div 2)..int (w div 2)] \<noteq> []" by simp
  then obtain t ts where "[- int (w div 2)..int (w div 2)] = t # ts"
    by (cases "[- int (w div 2)..int (w div 2)]") auto
  then show ?thesis by (simp add: designMatrix_def Let_def)
qed

lemma computeKernel_length:
  assumes "computeKernel w order sp = Inr kern"
  shows "length kern = 2 * (w div 2) + 1"
proof -
  let ?A = "designMatrix w order sp"
  let ?AT = "transposeMatrix ?A"
  let ?ATA = "multiplyMatrices ?AT ?A"
  from assms obtain ATAInv where inv: "invertMatrix ?ATA = Inr ATAInv"
    and k: "kern = multiplyMatrices ATAInv ?AT ! 0"
    by (auto simp: computeKernel_def Let_def split: sum.splits)
  have lAT: "length ?AT = order + 1"
    by (simp add: transposeMatrix_length designMatrix_row0)
  have "length ATAInv = order + 1"
    using invertMatrix_length [OF inv] by (simp add: multiplyMatrices_length lAT)
  then have "length kern = length (?AT ! 0)"
    unfolding k by (simp add: multiplyMatrices_row_length)
  also have "\<dots> = length ?A"
    by (rule transposeMatrix_row_length) (simp add: designMatrix_row0)
  finally show ?thesis by (simp add: designMatrix_length)
qed

lemma getSavitzkyGolayKernel_cacheOK:
  assumes "cacheOK cache"
    and "getSavitzkyGolayKernel cache (oddWindow w) order sp = Inr (kern, cache')"
  shows "length kern = oddWindow w \<and> cacheOK cache'"
proof (cases "cache (sgKey (oddWindow w) order sp)")
  case None
  with assms(2) have k: "computeKernel (oddWindow w) order sp = Inr kern"
    and c: "cache' = cache(sgKey (oddWindow w) order sp \<mapsto> kern)"
    by (auto simp: getSavitzkyGolayKernel_def Let_def split: sum.splits)
  have len: "length kern = oddWindow w"
    using computeKernel_length [OF k] oddWindow_half by simp
  have "cacheOK cache'"
    using assms(1) len unfolding c cacheOK_def sgKey_def by auto
  with len show ?thesis by simp
next
  case (Some k)
  with assms(2) have "kern = k" "cache' = cache"
    by (auto simp: getSavitzkyGolayKernel_def Let_def)
  then show ?thesis
    using assms(1) Some unfolding cacheOK_def sgKey_def by (cases "toFixed4 sp") auto
qed

lemma js_rem_nonneg: "0 \<le> a \<Longrightarrow> js_rem a n = a mod n"
  by (simp add: js_rem_def)

lemma js_at_replicate: "0 \<le> j \<Longrightarrow> j < int n \<Longrightarrow> js_at (replicate n c) j = Some c"
  by (simp add: js_at_def)

lemma windowStep_constant:
  assumes i: "i < n" and k: "k < length kern" and circ: "circular \<longrightarrow> half \<le> n"
  shows "\<exists>W'. windowStep kern (replicate n c) half circular i (Some (c * W), Some W) k
               = (Some (c * W'), Some W')"
proof -
  have kk: "js_at kern (int k) = Some (kern ! k)"
    using k by (simp add: js_at_def)
  have contribute: "(case (Some (c * W), js_at kern (int k), js_at (replicate n c) j) of
                       (Some s, Some w, Some v) \<Rightarrow> Some (s + w * v) | _ \<Rightarrow> None)
                    = Some (c * (W + kern ! k))"
    if "0 \<le> j" "j < int n" for j
    using that by (simp add: kk js_at_replicate algebra_simps)
  show ?thesis
  proof (cases circular)
    case True
    let ?a = "int i + int k - int half + int n"
    have a: "0 \<le> ?a" using circ True by simp
    have n: "0 < int n" using i by simp
    have r: "0 \<le> js_rem ?a (int n)" "js_rem ?a (int n) < int n"
      using n by (simp_all add: js_rem_nonneg [OF a])
    show ?thesis
      using True contribute [OF r] by (simp add: windowStep_def Let_def kk)
  next
    case False
    show ?thesis
    proof (cases "int i + int k - int half < 0 \<or> int i + int k - int half \<ge> int n")
      case True
      then show ?thesis using False by (auto simp: windowStep_def Let_def)
    next
      case inside: False
      then have "0 \<le> int i + int k - int half" "int i + int k - int half < int n" by auto
      from contribute [OF this] show ?thesis
        using False inside by (simp add: windowStep_def Let_def kk)
    qed
  qed
qed

lemma window_fold_constant:
  assumes i: "i < n" and ks: "\<forall>k\<in>set ks. k < length kern" and circ: "circular \<longrightarrow> half \<le> n"
  shows "\<exists>W'. foldl (windowStep kern (replicate n c) half circular i) (Some (c * W), Some W) ks
               = (Some (c * W'), Some W')"
  using ks
proof (induction ks arbitrary: W)
  case Nil
  then show ?case by simp
next
  case (Cons k ks)
  then have "k < length kern" by simp
  from windowStep_constant [OF i this circ, of c W] obtain W1 where
    "windowStep kern (replicate n c) half circular i (Some (c * W), Some W) k
       = (Some (c * W1), Some W1)" by blast
  then show ?case using Cons by simp
qed

lemma smoothSample_constant:
  assumes i: "i < n" and len: "length kern = w" and circ: "circular \<longrightarrow> w div 2 \<le> n"
  shows "smoothSample kern (replicate n c) w circular i = Some c"
proof -
  have ks: "\<forall>k\<in>set [0..<w]. k < length kern" using len by simp
  from window_fold_constant [OF i ks circ, of c 0] obtain W where
    "foldl (windowStep kern (replicate n c) (w div 2) circular i) (Some 0, Some 0) [0..<w]
       = (Some (c * W), Some W)" by auto
  then show ?thesis
    using i by (simp add: smoothSample_def Let_def js_at_def)
qed

text \<open>
  C9 (amended): for a constant input array, a window size of at least 3 and a polynomial order
  for which the kernel can be built (the normal matrix is not singular), \<open>savitzkyGolaySmooth\<close>
  returns the same constant array, provided that in circular mode half the window does not
  exceed the length of the array. The kernel cache keeps its invariant.
\<close>

theorem savitzkyGolaySmooth_constant:
  assumes win: "3 \<le> windowSize"
    and ok: "cacheOK cache"
    and kern: "getSavitzkyGolayKernel cache (oddWindow windowSize) order spacing
                 = Inr (kern, cache')"
    and circ: "circular \<longrightarrow> oddWindow windowSize div 2 \<le> n"
  shows "savitzkyGolaySmooth cache (replicate n c) windowSize order spacing circular
           = Inr (replicate n (Some c), cache')
         \<and> cacheOK cache'"
proof -
  from getSavitzkyGolayKernel_cacheOK [OF ok kern]
  have len: "length kern = oddWindow windowSize" and ok': "cacheOK cache'" by simp_all
  have "map (smoothSample kern (replicate n c) (oddWindow windowSize) circular) [0..<n]
        = replicate n (Some c)"
    by (rule nth_equalityI) (simp_all add: smoothSample_constant [OF _ len circ])
  then show ?thesis
    using win kern ok' by (simp add: savitzkyGolaySmooth_def oddWindow_def Let_def)
qed

lemma savitzkyGolaySmooth_throws:
  "windowSize < 3 \<Longrightarrow>
     savitzkyGolaySmooth cache vals windowSize order spacing circular = Inl WindowTooSmall"
  "3 \<le> windowSize \<Longrightarrow>
     getSavitzkyGolayKernel cache (oddWindow windowSize) order spacing = Inl e \<Longrightarrow>
     savitzkyGolaySmooth cache vals windowSize order spacing circular = Inl e"
  by (simp_all add: savitzkyGolaySmooth_def oddWindow_def Let_def)

text \<open>
  With window 3 and the default order 3 the normal matrix is singular and the call throws.
\<close>

lemma singularKernel: "computeKernel 3 3 1 = Inl SingularMatrix"
  by code_simp

theorem savitzkyGolaySmooth_constant_counterexample:
  "savitzkyGolaySmooth emptyCache (replicate 5 1) 3 3 1 True = Inl SingularMatrix"
  by (simp add: savitzkyGolaySmooth_def getSavitzkyGolayKernel_def emptyCache_def
        singularKernel Let_def)

lemma cacheOK_empty: "cacheOK emptyCache"
  by (simp add: cacheOK_def emptyCache_def)

lemma exampleKernel: "computeKernel 3 (Suc 0) 1 = Inr [1 / 3, 1 / 3, 1 / 3]"
  by code_simp

theorem savitzkyGolaySmooth_constant_witness:
  "(3 :: nat) \<le> 3 \<and> cacheOK emptyCache
   \<and> getSavitzkyGolayKernel emptyCache (oddWindow 3) 1 1
       = Inr ([1 / 3, 1 / 3, 1 / 3], emptyCache(sgKey 3 1 1 \<mapsto> [1 / 3, 1 / 3, 1 / 3]))
   \<and> oddWindow 3 div 2 \<le> 4
   \<and> savitzkyGolaySmooth emptyCache (replicate 4 7) 3 1 1 True
       = Inr (replicate 4 (Some 7), emptyCache(sgKey 3 1 1 \<mapsto> [1 / 3, 1 / 3, 1 / 3]))"
proof -
  have w: "oddWindow 3 = 3" by (simp add: oddWindow_def)
  have k: "getSavitzkyGolayKernel emptyCache (oddWindow 3) 1 1
       = Inr ([1 / 3, 1 / 3, 1 / 3], emptyCache(sgKey 3 1 1 \<mapsto> [1 / 3, 1 / 3, 1 / 3]))"
    by (simp add: w getSavitzkyGolayKernel_def emptyCache_def exampleKernel Let_def)
  have c: "True \<longrightarrow> oddWindow 3 div 2 \<le> 4" by (simp add: w)
  have three: "(3 :: nat) \<le> 3" by simp
  from savitzkyGolaySmooth_constant [OF three cacheOK_empty k c, of 7]
  show ?thesis using k w cacheOK_empty by simp
qed

text \<open>
  In circular mode an array shorter than half the window is read at a negative index: the
  first entry of the result is \<open>NaN\<close>.
\<close>

lemma shortKernel: "computeKernel 7 (Suc 0) 1 = Inr [1 / 7, 1 / 7, 1 / 7, 1 / 7, 1 / 7, 1 / 7, 1 / 7]"
  by code_simp

lemma savitzkyGolaySmooth_short_array:
  "map_sum id fst (savitzkyGolaySmooth emptyCache [1, 1] 7 1 1 True) = Inr [None, Some 1]"
  by (simp add: savitzkyGolaySmooth_def getSavitzkyGolayKernel_def emptyCache_def shortKernel
        smoothSample_def windowStep_def js_at_def js_rem_def Let_def upt_rec)

section \<open>Properties of the anchor budget\<close>

lemma set_add_set: "set (set_add idx s) = insert idx (set s)"
  by (auto simp: set_add_def)

lemma set_add_distinct: "distinct s \<Longrightarrow> distinct (set_add idx s)"
  by (simp add: set_add_def)

lemma set_add_length: "length s \<le> length (set_add idx s)"
  by (simp add: set_add_def)

lemma set_delete_set: "set (set_delete idx s) = set s - {idx}"
  by (auto simp: set_delete_def)

lemma set_delete_distinct: "distinct s \<Longrightarrow> distinct (set_delete idx s)"
  by (simp add: set_delete_def)

lemma bias_distinct:
  "distinct s \<Longrightarrow> distinct (foldl (\<lambda>s idx. set_add (f idx) s) s biasIndices)"
  by (induction biasIndices arbitrary: s) (simp_all add: set_add_distinct)

lemma straightLoop_distinct:
  "distinct s \<Longrightarrow> distinct (straightLoop n targetCount straightSamples idx s)"
proof (induction n targetCount straightSamples idx s rule: straightLoop.induct)
  case (1 n targetCount straightSamples idx indexSet)
  show ?case
  proof (cases "idx < n \<and> length indexSet < targetCount \<and> 0 < straightSamples")
    case True
    then show ?thesis
      using "1.IH" "1.prems" by (subst straightLoop.simps) (simp add: set_add_distinct)
  next
    case False
    then show ?thesis using "1.prems" by (subst straightLoop.simps) auto
  qed
qed

lemma guardedAdd_distinct:
  "distinct s \<Longrightarrow> distinct (foldl (guardedAdd targetCount) s entries)"
  by (induction entries arbitrary: s) (simp_all add: guardedAdd_def set_add_distinct)

lemma guardedAdd_length:
  "length s \<le> length (foldl (guardedAdd targetCount) s entries)"
proof (induction entries arbitrary: s)
  case Nil
  then show ?case by simp
next
  case (Cons e entries)
  have "length s \<le> length (guardedAdd targetCount s e)"
    by (simp add: guardedAdd_def set_add_length)
  also have "\<dots> \<le> length (foldl (guardedAdd targetCount) (guardedAdd targetCount s e) entries)"
    by (rule Cons.IH)
  finally show ?case by simp
qed

lemma guardedAdd_mono:
  "set s \<subseteq> set (foldl (guardedAdd targetCount) s entries)"
proof (induction entries arbitrary: s)
  case Nil
  then show ?case by simp
next
  case (Cons e entries)
  have "set s \<subseteq> set (guardedAdd targetCount s e)"
    by (auto simp: guardedAdd_def set_add_set)
  also have "\<dots> \<subseteq> set (foldl (guardedAdd targetCount) (guardedAdd targetCount s e) entries)"
    by (rule Cons.IH)
  finally show ?case by simp
qed

lemma guardedAdd_complete:
  assumes "length (foldl (guardedAdd targetCount) s entries) < targetCount"
  shows "fst ` set entries \<subseteq> set (foldl (guardedAdd targetCount) s entries)"
  using assms
proof (induction entries arbitrary: s)
  case Nil
  then show ?case by simp
next
  case (Cons e entries)
  let ?s' = "guardedAdd targetCount s e"
  let ?r = "foldl (guardedAdd targetCount) ?s' entries"
  have r: "length ?r < targetCount" using Cons.prems by simp
  have "length ?s' \<le> length ?r" by (rule guardedAdd_length)
  moreover have "length s \<le> length ?s'" by (simp add: guardedAdd_def set_add_length)
  ultimately have "length s < targetCount" using r by simp
  then have "fst e \<in> set ?s'" by (simp add: guardedAdd_def set_add_set)
  moreover have "set ?s' \<subseteq> set ?r" by (rule guardedAdd_mono)
  ultimately show ?case using Cons.IH [OF r] by auto
qed

lemma guardedAdd_reaches_target:
  assumes d: "distinct s" and all: "fst ` set entries = {0..<n}" and big: "targetCount < n"
  shows "targetCount \<le> length (foldl (guardedAdd targetCount) s entries)"
proof (rule ccontr)
  let ?r = "foldl (guardedAdd targetCount) s entries"
  assume "\<not> targetCount \<le> length ?r"
  then have small: "length ?r < targetCount" by simp
  from guardedAdd_complete [OF small] all have "{0..<n} \<subseteq> set ?r" by simp
  then have "card {0..<n} \<le> card (set ?r)" by (intro card_mono) simp_all
  moreover have "card (set ?r) = length ?r"
    using guardedAdd_distinct [OF d] by (simp add: distinct_card)
  ultimately show False using small big by simp
qed

lemma delete_fold_set:
  "set (foldl (\<lambda>s (entry :: nat \<times> real). set_delete (fst entry) s) s entries)
     = set s - fst ` set entries"
  by (induction entries arbitrary: s) (auto simp: set_delete_set)

lemma delete_fold_distinct:
  "distinct s \<Longrightarrow>
   distinct (foldl (\<lambda>s (entry :: nat \<times> real). set_delete (fst entry) s) s entries)"
  by (induction entries arbitrary: s) (simp_all add: set_delete_distinct)

lemma delete_fold_length:
  assumes d: "distinct s" and de: "distinct (map fst entries)"
    and sub: "fst ` set entries \<subseteq> set s"
  shows "length (foldl (\<lambda>s (entry :: nat \<times> real). set_delete (fst entry) s) s entries)
           = length s - length entries"
proof -
  let ?r = "foldl (\<lambda>s (entry :: nat \<times> real). set_delete (fst entry) s) s entries"
  have "length ?r = card (set ?r)"
    using delete_fold_distinct [OF d] by (simp add: distinct_card)
  also have "\<dots> = card (set s - fst ` set entries)" by (simp add: delete_fold_set)
  also have "\<dots> = card (set s) - card (fst ` set entries)"
    using sub by (simp add: card_Diff_subset)
  also have "card (set s) = length s" using d by (simp add: distinct_card)
  also have "card (fst ` set entries) = length entries"
    using de distinct_card [of "map fst entries"] by simp
  finally show ?thesis .
qed

lemma wrapped_index_below:
  assumes "0 < n"
  shows "nat (js_rem (js_rem idx (int n) + int n) (int n)) < n"
proof -
  have "- int n < js_rem idx (int n)"
  proof (cases "idx < 0")
    case True
    have "(- idx) mod int n < int n" using assms by simp
    then show ?thesis using True by (simp add: js_rem_def)
  next
    case False
    have "0 \<le> idx mod int n" using assms by simp
    moreover have "- int n < 0" using assms by simp
    ultimately have "- int n < idx mod int n" by linarith
    then show ?thesis using False by (simp add: js_rem_def)
  qed
  then have nonneg: "0 \<le> js_rem idx (int n) + int n" by simp
  have "js_rem (js_rem idx (int n) + int n) (int n) = (js_rem idx (int n) + int n) mod int n"
    using nonneg by (simp add: js_rem_def)
  moreover have "0 \<le> (js_rem idx (int n) + int n) mod int n"
    "(js_rem idx (int n) + int n) mod int n < int n"
    using assms by simp_all
  ultimately show ?thesis by simp
qed

lemma bias_below:
  assumes "0 < n" "set s \<subseteq> {0..<n}"
  shows "set (foldl (\<lambda>s idx. set_add (nat (js_rem (js_rem idx (int n) + int n) (int n))) s)
                s biasIndices) \<subseteq> {0..<n}"
  using assms(2)
proof (induction biasIndices arbitrary: s)
  case Nil
  then show ?case by simp
next
  case (Cons idx rest)
  show ?case
    using Cons.prems wrapped_index_below [OF assms(1), of idx]
    by (simp add: set_add_set Cons.IH)
qed

lemma straightLoop_below:
  "set s \<subseteq> {0..<n} \<Longrightarrow> set (straightLoop n targetCount straightSamples idx s) \<subseteq> {0..<n}"
proof (induction n targetCount straightSamples idx s rule: straightLoop.induct)
  case (1 n targetCount straightSamples idx indexSet)
  show ?case
  proof (cases "idx < n \<and> length indexSet < targetCount \<and> 0 < straightSamples")
    case True
    then have "set (set_add idx indexSet) \<subseteq> {0..<n}"
      using "1.prems" by (simp add: set_add_set)
    then show ?thesis
      using "1.IH" [OF True] True by (subst straightLoop.simps) simp
  next
    case False
    then show ?thesis using "1.prems" by (subst straightLoop.simps) auto
  qed
qed

lemma guardedAdd_below:
  assumes "set s \<subseteq> {0..<n}" "fst ` set entries \<subseteq> {0..<n}"
  shows "set (foldl (guardedAdd targetCount) s entries) \<subseteq> {0..<n}"
  using assms
  by (induction entries arbitrary: s) (auto simp: guardedAdd_def set_add_set)

lemma buildAnchorBudget_selection:
  assumes big: "targetCount < length points" and four: "4 \<le> targetCount"
  shows "\<exists>indices. length indices = targetCount \<and> distinct indices
           \<and> set indices \<subseteq> {0..<length points}
           \<and> buildAnchorBudget points targetCount biasIndices spacingMeters straightSpacing
               = map (\<lambda>idx. points ! idx) (sort indices)"
proof -
  let ?n = "length points"
  let ?s0 = "foldl (\<lambda>s idx. set_add (nat (js_rem (js_rem idx (int ?n) + int ?n) (int ?n))) s)
               [] biasIndices"
  let ?stride = "nat (max 1 (Math_round (straightSpacing / max spacingMeters (1 / 10 ^ 3))))"
  let ?s1 = "straightLoop ?n targetCount ?stride 0 ?s0"
  let ?scores = "map (\<lambda>idx. (idx, curvatureScore points idx)) [0..<?n]"
  let ?entries = "sort_key (\<lambda>entry. - snd entry) ?scores"
  let ?s2 = "foldl (guardedAdd targetCount) ?s1 ?entries"
  let ?byCurv = "sort_key snd (map (\<lambda>idx. (idx, curvatureScore points idx)) ?s2)"
  let ?drop = "take (length ?byCurv - targetCount) ?byCurv"
  let ?s3 = "if length ?s2 > targetCount
             then foldl (\<lambda>s entry. set_delete (fst entry) s) ?s2 ?drop else ?s2"
  have d1: "distinct ?s1"
    by (intro straightLoop_distinct bias_distinct) simp
  have d2: "distinct ?s2" by (rule guardedAdd_distinct [OF d1])
  have all: "fst ` set ?entries = {0..<?n}"
    by (simp add: image_image)
  have ge: "targetCount \<le> length ?s2"
    by (rule guardedAdd_reaches_target [OF d1 all big])
  have setBC: "set ?byCurv = (\<lambda>idx. (idx, curvatureScore points idx)) ` set ?s2"
    by simp
  have dB: "distinct (map fst ?byCurv)"
  proof -
    have "distinct (map (\<lambda>idx. (idx, curvatureScore points idx)) ?s2)"
      using d2 by (simp add: distinct_map inj_on_def)
    then have "distinct ?byCurv" by simp
    moreover have "inj_on fst (set ?byCurv)"
      unfolding setBC by (auto simp: inj_on_def)
    ultimately show ?thesis by (simp add: distinct_map)
  qed
  have setB: "set (map fst ?byCurv) = set ?s2"
    unfolding set_map setBC by (simp add: image_image)
  have lenB: "length ?byCurv = length ?s2" by simp
  have dD: "distinct (map fst ?drop)"
    using dB by (simp add: take_map [symmetric])
  have subD: "fst ` set ?drop \<subseteq> set ?s2"
  proof -
    have "set ?drop \<subseteq> set ?byCurv" by (rule set_take_subset)
    then have "fst ` set ?drop \<subseteq> fst ` set ?byCurv" by (rule image_mono)
    then show ?thesis using setB by simp
  qed
  have len3: "length ?s3 = targetCount"
  proof (cases "length ?s2 > targetCount")
    case True
    have "length (foldl (\<lambda>s entry. set_delete (fst entry) s) ?s2 ?drop)
          = length ?s2 - length ?drop"
      by (rule delete_fold_length [OF d2 dD subD])
    also have "length ?drop = length ?s2 - targetCount" using lenB by simp
    finally show ?thesis using True by simp
  next
    case False
    then show ?thesis using ge by simp
  qed
  have unfold: "buildAnchorBudget points targetCount biasIndices spacingMeters straightSpacing
                = (let selected = map (\<lambda>idx. points ! idx) (sort ?s3)
                   in if length selected < 4 then points else selected)"
    using big four
    unfolding buildAnchorBudget_def Let_def guardedAdd_def [abs_def] by simp
  have pos: "0 < ?n" using big by (cases points) simp_all
  have b1: "set ?s1 \<subseteq> {0..<?n}"
    by (intro straightLoop_below bias_below [OF pos]) simp
  have b2: "set ?s2 \<subseteq> {0..<?n}"
    by (rule guardedAdd_below [OF b1]) (simp only: all subset_refl)
  have b3: "set ?s3 \<subseteq> {0..<?n}"
    using b2 by (auto simp: delete_fold_set)
  have d3: "distinct ?s3"
    using d2 by (simp add: delete_fold_distinct)
  have "buildAnchorBudget points targetCount biasIndices spacingMeters straightSpacing
        = map (\<lambda>idx. points ! idx) (sort ?s3)"
    unfolding unfold Let_def using len3 four by simp
  with len3 d3 b3 show ?thesis by blast
qed

lemma buildAnchorBudget_main:
  assumes "targetCount < length points" and "4 \<le> targetCount"
  shows "length (buildAnchorBudget points targetCount biasIndices spacingMeters straightSpacing)
           = targetCount"
    and "set (buildAnchorBudget points targetCount biasIndices spacingMeters straightSpacing)
           \<subseteq> set points"
proof -
  from buildAnchorBudget_selection [OF assms] obtain indices where
    i: "length indices = targetCount" "set indices \<subseteq> {0..<length points}"
    and eq: "buildAnchorBudget points targetCount biasIndices spacingMeters straightSpacing
               = map (\<lambda>idx. points ! idx) (sort indices)"
    by blast
  show "length (buildAnchorBudget points targetCount biasIndices spacingMeters straightSpacing)
           = targetCount"
    unfolding eq using i(1) by simp
  show "set (buildAnchorBudget points targetCount biasIndices spacingMeters straightSpacing)
           \<subseteq> set points"
    unfolding eq using i(2) by auto
qed

lemma buildAnchorBudget_small:
  assumes "length points \<le> targetCount \<or> targetCount < 4"
  shows "buildAnchorBudget points targetCount biasIndices spacingMeters straightSpacing = points"
  unfolding buildAnchorBudget_def Let_def by (simp only: assms if_True)

text \<open>
  C4 (amended): when the point set is larger than the target budget and the budget is at least
  4, the control point set has exactly as many points as the budget (hence at least 4 and at
  most the budget); in every other case the input points are returned as they are.
\<close>

theorem buildAnchorBudget_size:
  "(targetCount < length points \<and> 4 \<le> targetCount
      \<longrightarrow> length (buildAnchorBudget points targetCount biasIndices spacingMeters straightSpacing)
            = targetCount)
   \<and> (\<not> (targetCount < length points \<and> 4 \<le> targetCount)
      \<longrightarrow> buildAnchorBudget points targetCount biasIndices spacingMeters straightSpacing
            = points)"
proof (intro conjI impI)
  assume "targetCount < length points \<and> 4 \<le> targetCount"
  then show "length (buildAnchorBudget points targetCount biasIndices spacingMeters straightSpacing)
             = targetCount"
    using buildAnchorBudget_main(1) by simp
next
  assume "\<not> (targetCount < length points \<and> 4 \<le> targetCount)"
  then have "length points \<le> targetCount \<or> targetCount < 4" by auto
  then show "buildAnchorBudget points targetCount biasIndices spacingMeters straightSpacing = points"
    by (rule buildAnchorBudget_small)
qed

theorem buildAnchorBudget_size_witness:
  "4 < length examplePoints
   \<and> length (buildAnchorBudget examplePoints 4 [2] 1 80) = 4
   \<and> buildAnchorBudget examplePoints 40 [2] 1 80 = examplePoints"
proof -
  have len: "length examplePoints = 5" by (simp add: examplePoints_def)
  show ?thesis
    using buildAnchorBudget_size [of 4 examplePoints "[2]" 1 80]
          buildAnchorBudget_size [of 40 examplePoints "[2]" 1 80]
    by (simp add: len)
qed

text \<open>
  Three points with the budget 40 stay three points; five points with the budget 2 stay five.
\<close>

theorem buildAnchorBudget_size_counterexample:
  "length (buildAnchorBudget (take 3 examplePoints) 40 [] 1 80) = 3
   \<and> \<not> 4 \<le> length (buildAnchorBudget (take 3 examplePoints) 40 [] 1 80)
   \<and> length (buildAnchorBudget examplePoints 2 [] 1 80) = 5
   \<and> \<not> length (buildAnchorBudget examplePoints 2 [] 1 80) \<le> 2"
proof -
  have len: "length examplePoints = 5" by (simp add: examplePoints_def)
  have a: "buildAnchorBudget (take 3 examplePoints) 40 [] 1 80 = take 3 examplePoints"
    by (rule buildAnchorBudget_small) (simp add: len)
  have b: "buildAnchorBudget examplePoints 2 [] 1 80 = examplePoints"
    by (rule buildAnchorBudget_small) simp
  show ?thesis unfolding a b by (simp add: len)
qed

section \<open>Properties of a resampling run\<close>

lemma progressGrid_length: "length (progressGrid gridSize) = gridSize"
  by (simp add: progressGrid_def)

lemma gridPoint_progress:
  "progress (gridPoint validSamples progressArr gridSize i) = targetProgress gridSize i"
  by (cases "targetProgress gridSize i") (simp_all add: gridPoint_def Let_def)

lemma resampleOnGrid_progress:
  assumes "resampleOnGrid samples gridSize = Inr grid"
  shows "map progress grid = progressGrid gridSize"
proof -
  let ?vs = "filter isValidSample samples"
  from assms have "grid = map (gridPoint ?vs (normalizeToProgress (calculateCumulativeDistance ?vs))
                                 gridSize) [0..<gridSize]"
    unfolding resampleOnGrid_def Let_def by (cases "length ?vs < 2") simp_all
  then show ?thesis
    by (simp add: progressGrid_def gridPoint_progress comp_def)
qed

lemma rotateGrid_progress: "map progress (rotateGrid grid angle) = map progress grid"
  by (simp add: rotateGrid_def Let_def comp_def)

lemma gridsOK_append: "gridsOK g (gridList @ [grid]) \<longleftrightarrow> gridsOK g gridList \<and> map progress grid = progressGrid g"
  by (auto simp: gridsOK_def)

lemma pushGrid_gridsOK:
  assumes "\<forall>r. gridsOK g (grouped st r)" "map progress grid = progressGrid g"
  shows "\<forall>r. gridsOK g (grouped (pushGrid role grid st) r)"
  using assms by (simp add: pushGrid_def gridsOK_append)

lemma processLap_cases:
  assumes "processLap gridSize align st cl = Inr st'"
  obtains grid st0 where "resampleOnGrid (lap_samples cl) gridSize = Inr grid"
    and "grouped st0 = grouped st"
    and "st' = pushGrid (lap_type cl) grid st0
         \<or> (\<exists>angle. st' = pushGrid (lap_type cl) (rotateGrid grid angle) st0)"
proof -
  from assms obtain grid where g: "resampleOnGrid (lap_samples cl) gridSize = Inr grid"
    by (cases "resampleOnGrid (lap_samples cl) gridSize") (simp_all add: processLap_def)
  show ?thesis
  proof (cases align)
    case False
    with assms g have "st' = pushGrid (lap_type cl) grid st"
      by (simp add: processLap_def)
    then show ?thesis using that [OF g, of st] by simp
  next
    case True
    show ?thesis
    proof (cases "referenceHeading st")
      case None
      let ?st0 = "st\<lparr>referenceHeading := Some (computeHeadings grid),
                       headingOffsets := (headingOffsets st)(offsetKey cl \<mapsto> 0)\<rparr>"
      from assms g True None have "st' = pushGrid (lap_type cl) grid ?st0"
        by (simp add: processLap_def Let_def)
      then show ?thesis using that [OF g, of ?st0] by simp
    next
      case (Some reference)
      let ?d = "medianAngle (headingDeltas (computeHeadings grid) reference)"
      let ?st0 = "st\<lparr>headingOffsets := (headingOffsets st)(offsetKey cl \<mapsto> ?d)\<rparr>"
      from assms g True Some have
        "st' = (if \<bar>?d\<bar> > 1 / 10 ^ 4 then pushGrid (lap_type cl) (rotateGrid grid (- ?d)) ?st0
                else pushGrid (lap_type cl) grid ?st0)"
        by (auto simp: processLap_def Let_def split: if_splits)
      then have "st' = pushGrid (lap_type cl) grid ?st0
         \<or> (\<exists>angle. st' = pushGrid (lap_type cl) (rotateGrid grid angle) ?st0)"
        by (cases "\<bar>?d\<bar> > 1 / 10 ^ 4") auto
      then show ?thesis using that [OF g, of ?st0] by simp
    qed
  qed
qed

lemma processLap_gridsOK:
  assumes run: "processLap gridSize align st cl = Inr st'"
    and ok: "\<forall>r. gridsOK gridSize (grouped st r)"
  shows "\<forall>r. gridsOK gridSize (grouped st' r)"
proof -
  from processLap_cases [OF run] obtain grid st0 where
    g: "resampleOnGrid (lap_samples cl) gridSize = Inr grid"
    and same: "grouped st0 = grouped st"
    and st': "st' = pushGrid (lap_type cl) grid st0
         \<or> (\<exists>angle. st' = pushGrid (lap_type cl) (rotateGrid grid angle) st0)"
    by blast
  note p = resampleOnGrid_progress [OF g]
  have ok0: "\<forall>r. gridsOK gridSize (grouped st0 r)" using ok same by simp
  from st' show ?thesis
  proof
    assume "st' = pushGrid (lap_type cl) grid st0"
    then show ?thesis using pushGrid_gridsOK [OF ok0 p] by simp
  next
    assume "\<exists>angle. st' = pushGrid (lap_type cl) (rotateGrid grid angle) st0"
    then obtain angle where "st' = pushGrid (lap_type cl) (rotateGrid grid angle) st0" ..
    moreover have "map progress (rotateGrid grid angle) = progressGrid gridSize"
      using p by (simp add: rotateGrid_progress)
    ultimately show ?thesis using pushGrid_gridsOK [OF ok0] by simp
  qed
qed

lemma processLaps_gridsOK:
  assumes "processLaps gridSize align st laps = Inr st'"
    and "\<forall>r. gridsOK gridSize (grouped st r)"
  shows "\<forall>r. gridsOK gridSize (grouped st' r)"
  using assms
proof (induction laps arbitrary: st)
  case Nil
  then show ?case by simp
next
  case (Cons cl rest)
  from Cons.prems(1) obtain st1 where
    s1: "processLap gridSize align st cl = Inr st1"
    and s2: "processLaps gridSize align st1 rest = Inr st'"
    by (auto split: sum.splits)
  show ?case
    by (rule Cons.IH [OF s2 processLap_gridsOK [OF s1 Cons.prems(2)]])
qed

lemma gridsOK_lengths: "gridsOK g gridList \<Longrightarrow> \<forall>grid\<in>set gridList. length grid = g"
proof
  fix grid assume "gridsOK g gridList" "grid \<in> set gridList"
  then have "map progress grid = progressGrid g" by (simp add: gridsOK_def)
  then have "length (map progress grid) = g" by (simp add: progressGrid_length)
  then show "length grid = g" by simp
qed

lemma averageGrid_gridsOK:
  assumes ok: "gridsOK g gridList"
  shows "\<exists>res. averageGrid gridList = Inr res
           \<and> (gridList = [] \<longleftrightarrow> res = None)
           \<and> (\<forall>grid. res = Some grid \<longrightarrow> map progress grid = progressGrid g)"
proof (cases "gridList = []")
  case True
  then show ?thesis by (simp add: averageGrid_def)
next
  case False
  then have first: "gridList ! 0 \<in> set gridList" by (cases gridList) simp_all
  have lens: "\<forall>grid\<in>set gridList. length grid = g" by (rule gridsOK_lengths [OF ok])
  have len0: "length (gridList ! 0) = g" using lens first by simp
  have nofind: "find (\<lambda>grid. length grid \<noteq> length (gridList ! 0)) gridList = None"
    using lens len0 by (simp add: find_None_iff)
  have p0: "map progress (gridList ! 0) = progressGrid g"
    using ok first by (simp add: gridsOK_def)
  have avg: "map progress (map (\<lambda>i.
                 \<lparr>progress = progress (gridList ! 0 ! i),
                  point_x = foldl (\<lambda>sumX grid. sumX + point_x (grid ! i)) 0 gridList
                            / real (length gridList),
                  point_y = foldl (\<lambda>sumY grid. sumY + point_y (grid ! i)) 0 gridList
                            / real (length gridList)\<rparr>) [0..<length (gridList ! 0)])
             = progressGrid g"
  proof -
    have "map progress (map (\<lambda>i.
                 \<lparr>progress = progress (gridList ! 0 ! i),
                  point_x = foldl (\<lambda>sumX grid. sumX + point_x (grid ! i)) 0 gridList
                            / real (length gridList),
                  point_y = foldl (\<lambda>sumY grid. sumY + point_y (grid ! i)) 0 gridList
                            / real (length gridList)\<rparr>) [0..<length (gridList ! 0)])
          = map (\<lambda>i. progress (gridList ! 0 ! i)) [0..<length (gridList ! 0)]"
      by (simp add: comp_def)
    also have "\<dots> = map progress (gridList ! 0)"
      by (rule nth_equalityI) simp_all
    finally show ?thesis using p0 by simp
  qed
  have ne: "length gridList \<noteq> 0" using False by simp
  show ?thesis
  proof (cases "length gridList = 1")
    case True
    have "averageGrid gridList = Inr (Some (gridList ! 0))"
      unfolding averageGrid_def Let_def nofind by (simp add: True)
    then show ?thesis using False p0 by simp
  next
    case one: False
    have "averageGrid gridList = Inr (Some (map (\<lambda>i.
                 \<lparr>progress = progress (gridList ! 0 ! i),
                  point_x = foldl (\<lambda>sumX grid. sumX + point_x (grid ! i)) 0 gridList
                            / real (length gridList),
                  point_y = foldl (\<lambda>sumY grid. sumY + point_y (grid ! i)) 0 gridList
                            / real (length gridList)\<rparr>) [0..<length (gridList ! 0)]))"
      unfolding averageGrid_def Let_def nofind using ne one by simp
    then show ?thesis using False avg by simp
  qed
qed

lemma progressGrid_nth:
  assumes "map progress grid = progressGrid g"
  shows "length grid = g"
    and "\<forall>i<g. progress (grid ! i) = (if g = 1 then None else Some (real i / (real g - 1)))"
proof -
  from assms have "length (map progress grid) = g" by (simp add: progressGrid_length)
  then show len: "length grid = g" by simp
  show "\<forall>i<g. progress (grid ! i) = (if g = 1 then None else Some (real i / (real g - 1)))"
  proof (intro allI impI)
    fix i assume i: "i < g"
    have "progress (grid ! i) = map progress grid ! i" using i len by simp
    also have "\<dots> = targetProgress g i" using i by (simp add: assms progressGrid_def)
    finally show "progress (grid ! i) = (if g = 1 then None else Some (real i / (real g - 1)))"
      by (simp add: targetProgress_def)
  qed
qed

lemma resampleCalibrationLaps_cases:
  assumes "resampleCalibrationLaps classifiedLaps options = Inr res"
  obtains st where
    "processLaps (resolveSampleCount (opt_sampleCount options) (averageLength classifiedLaps)
                    (opt_spacingMeters options))
       (opt_alignHeading options) initialAlignState classifiedLaps = Inr st"
    and "averageGrid (grouped st Left) = Inr (grids_left res)"
    and "averageGrid (grouped st Right) = Inr (grids_right res)"
    and "(if length (grouped st Center) \<noteq> 0 then averageGrid (grouped st Center) else Inr None)
           = Inr (grids_center res)"
    and "rawSamples res = grouped st"
    and "meta_headingOffsets res = headingOffsets st"
    and "meta_sampleCount res = resolveSampleCount (opt_sampleCount options)
           (averageLength classifiedLaps) (opt_spacingMeters options)"
  using assms
  unfolding resampleCalibrationLaps_def Let_def
  by (auto split: sum.splits if_splits)

text \<open>
  C5: in a run of \<open>resampleCalibrationLaps\<close> that returns, every grid produced (the raw
  grids of every role and lap, rotated or not, and the averaged grids) has the resolved grid
  size as its length and carries at index \<open>i\<close> the progress \<open>i / (gridSize - 1)\<close>,
  whatever the traces are. For the grid size 1 this quotient is \<open>0 / 0\<close>, which is
  \<open>NaN\<close> in every grid alike.
\<close>

theorem resampleCalibrationLaps_progress:
  assumes "resampleCalibrationLaps classifiedLaps options = Inr res"
  shows "meta_sampleCount res
           = resolveSampleCount (opt_sampleCount options) (averageLength classifiedLaps)
               (opt_spacingMeters options)
       \<and> (\<forall>grid. (\<exists>r. grid \<in> set (rawSamples res r)) \<or> grids_left res = Some grid
                  \<or> grids_right res = Some grid \<or> grids_center res = Some grid
            \<longrightarrow> length grid = meta_sampleCount res
                \<and> (\<forall>i<meta_sampleCount res.
                      progress (grid ! i)
                        = (if meta_sampleCount res = 1 then None
                           else Some (real i / (real (meta_sampleCount res) - 1)))))"
proof -
  let ?g = "resolveSampleCount (opt_sampleCount options) (averageLength classifiedLaps)
              (opt_spacingMeters options)"
  from resampleCalibrationLaps_cases [OF assms] obtain st where
    run: "processLaps ?g (opt_alignHeading options) initialAlignState classifiedLaps = Inr st"
    and left: "averageGrid (grouped st Left) = Inr (grids_left res)"
    and right: "averageGrid (grouped st Right) = Inr (grids_right res)"
    and center: "(if length (grouped st Center) \<noteq> 0 then averageGrid (grouped st Center)
                  else Inr None) = Inr (grids_center res)"
    and raw: "rawSamples res = grouped st"
    and count: "meta_sampleCount res = ?g"
    by blast
  have init: "\<forall>r. gridsOK ?g (grouped initialAlignState r)"
    by (simp add: initialAlignState_def gridsOK_def)
  note ok = processLaps_gridsOK [OF run init]
  have okL: "\<forall>grid. grids_left res = Some grid \<longrightarrow> map progress grid = progressGrid ?g"
    using averageGrid_gridsOK [of ?g "grouped st Left"] ok left by auto
  have okR: "\<forall>grid. grids_right res = Some grid \<longrightarrow> map progress grid = progressGrid ?g"
    using averageGrid_gridsOK [of ?g "grouped st Right"] ok right by auto
  have okC: "\<forall>grid. grids_center res = Some grid \<longrightarrow> map progress grid = progressGrid ?g"
    using averageGrid_gridsOK [of ?g "grouped st Center"] ok center
    by (cases "length (grouped st Center) \<noteq> 0") auto
  have okRaw: "\<forall>r. \<forall>grid\<in>set (rawSamples res r). map progress grid = progressGrid ?g"
    using ok raw by (simp add: gridsOK_def)
  have all: "map progress grid = progressGrid ?g"
    if "(\<exists>r. grid \<in> set (rawSamples res r)) \<or> grids_left res = Some grid
        \<or> grids_right res = Some grid \<or> grids_center res = Some grid" for grid
    using that okL okR okC okRaw by blast
  show ?thesis
    unfolding count using progressGrid_nth all by blast
qed

text \<open>
  The run returns when every lap has two valid samples and some lap is a left or a right one;
  in particular the grid-size mismatch of \<open>averageGrid\<close> never occurs.
\<close>

lemma resampleOnGrid_returns:
  assumes "2 \<le> length (filter isValidSample samples)"
  shows "\<exists>grid. resampleOnGrid samples gridSize = Inr grid"
  using assms by (simp add: resampleOnGrid_def Let_def)

lemma processLap_grouped:
  assumes "processLap gridSize align st cl = Inr st'"
  shows "\<exists>grid. grouped st' = (grouped st)(lap_type cl := grouped st (lap_type cl) @ [grid])"
proof -
  from processLap_cases [OF assms] obtain grid st0 where
    same: "grouped st0 = grouped st"
    and st': "st' = pushGrid (lap_type cl) grid st0
         \<or> (\<exists>angle. st' = pushGrid (lap_type cl) (rotateGrid grid angle) st0)"
    by blast
  from st' show ?thesis
    using same by (auto simp: pushGrid_def)
qed

lemma processLap_returns:
  assumes "2 \<le> length (filter isValidSample (lap_samples cl))"
  shows "\<exists>st'. processLap gridSize align st cl = Inr st'"
proof -
  from resampleOnGrid_returns [OF assms] obtain grid where
    g: "resampleOnGrid (lap_samples cl) gridSize = Inr grid" by blast
  show ?thesis
    by (cases "referenceHeading st") (simp_all add: processLap_def g Let_def)
qed

lemma processLaps_returns:
  assumes "\<forall>cl\<in>set laps. 2 \<le> length (filter isValidSample (lap_samples cl))"
  shows "\<exists>st'. processLaps gridSize align st laps = Inr st'"
  using assms
proof (induction laps arbitrary: st)
  case Nil
  then show ?case by simp
next
  case (Cons cl rest)
  then have "2 \<le> length (filter isValidSample (lap_samples cl))" by simp
  from processLap_returns [OF this] obtain st1 where
    "processLap gridSize align st cl = Inr st1" by blast
  then show ?case using Cons by simp
qed

lemma processLaps_count:
  assumes "processLaps gridSize align st laps = Inr st'"
  shows "length (grouped st' r) = length (grouped st r) + length (filter (\<lambda>cl. lap_type cl = r) laps)"
  using assms
proof (induction laps arbitrary: st)
  case Nil
  then show ?case by simp
next
  case (Cons cl rest)
  from Cons.prems obtain st1 where
    s1: "processLap gridSize align st cl = Inr st1"
    and s2: "processLaps gridSize align st1 rest = Inr st'"
    by (auto split: sum.splits)
  from processLap_grouped [OF s1] obtain grid where
    "grouped st1 = (grouped st)(lap_type cl := grouped st (lap_type cl) @ [grid])" by blast
  then have "length (grouped st1 r) = length (grouped st r) + (if lap_type cl = r then 1 else 0)"
    by simp
  then show ?case using Cons.IH [OF s2] by simp
qed

lemma resampleCalibrationLaps_returns:
  assumes valid: "\<forall>cl\<in>set classifiedLaps. 2 \<le> length (filter isValidSample (lap_samples cl))"
    and side: "\<exists>cl\<in>set classifiedLaps. lap_type cl = Left \<or> lap_type cl = Right"
  shows "\<exists>res. resampleCalibrationLaps classifiedLaps options = Inr res"
proof -
  let ?g = "resolveSampleCount (opt_sampleCount options) (averageLength classifiedLaps)
              (opt_spacingMeters options)"
  from processLaps_returns [OF valid] obtain st where
    run: "processLaps ?g (opt_alignHeading options) initialAlignState classifiedLaps = Inr st"
    by blast
  have init: "\<forall>r. gridsOK ?g (grouped initialAlignState r)"
    by (simp add: initialAlignState_def gridsOK_def)
  note ok = processLaps_gridsOK [OF run init]
  from averageGrid_gridsOK [of ?g "grouped st Left"] ok obtain l where
    l: "averageGrid (grouped st Left) = Inr l" "grouped st Left = [] \<longleftrightarrow> l = None" by blast
  from averageGrid_gridsOK [of ?g "grouped st Right"] ok obtain r where
    r: "averageGrid (grouped st Right) = Inr r" "grouped st Right = [] \<longleftrightarrow> r = None" by blast
  from averageGrid_gridsOK [of ?g "grouped st Center"] ok obtain c where
    c: "averageGrid (grouped st Center) = Inr c" by blast
  have cnt: "\<And>role. length (grouped st role) = length (filter (\<lambda>cl. lap_type cl = role) classifiedLaps)"
    using processLaps_count [OF run] by (simp add: initialAlignState_def)
  from side obtain cl where cl: "cl \<in> set classifiedLaps" "lap_type cl = Left \<or> lap_type cl = Right"
    by blast
  then have "filter (\<lambda>cl. lap_type cl = Left) classifiedLaps \<noteq> []
           \<or> filter (\<lambda>cl. lap_type cl = Right) classifiedLaps \<noteq> []"
    by (auto simp: filter_empty_conv)
  then have "grouped st Left \<noteq> [] \<or> grouped st Right \<noteq> []"
    using cnt [of Left] cnt [of Right] by auto
  then have some: "\<not> (l = None \<and> r = None)" using l(2) r(2) by auto
  show ?thesis
    unfolding resampleCalibrationLaps_def Let_def run
    using l(1) r(1) c some by (cases "length (grouped st Center) \<noteq> 0") auto
qed






lemma exampleGrid_resampled: "resampleOnGrid [exampleSampleA, exampleSampleB] 3 = Inr exampleGrid"
  by code_simp

lemma example_valid: "isValidSample exampleSampleA" "isValidSample exampleSampleB"
  by (simp_all add: isValidSample_def exampleSampleA_def exampleSampleB_def getPlanarY_def)

lemma exampleRun_returns: "exampleRun = Inr (projr exampleRun)"
proof -
  have "\<exists>res. resampleCalibrationLaps [exampleLapA, exampleLapB] exampleOptions = Inr res"
    by (rule resampleCalibrationLaps_returns)
       (simp_all add: exampleLapA_def exampleLapB_def example_valid)
  then show ?thesis by (auto simp: exampleRun_def)
qed

lemma example_gridSize:
  "resolveSampleCount (opt_sampleCount exampleOptions) (averageLength [exampleLapA, exampleLapB])
     (opt_spacingMeters exampleOptions) = 3"
  by (simp add: resolveSampleCount_def exampleOptions_def Let_def)

lemma resampleCalibrationLaps_raw_count:
  assumes "resampleCalibrationLaps classifiedLaps options = Inr res"
  shows "length (rawSamples res r) = length (filter (\<lambda>cl. lap_type cl = r) classifiedLaps)"
proof -
  from resampleCalibrationLaps_cases [OF assms] obtain st where
    run: "processLaps (resolveSampleCount (opt_sampleCount options) (averageLength classifiedLaps)
                    (opt_spacingMeters options))
       (opt_alignHeading options) initialAlignState classifiedLaps = Inr st"
    and raw: "rawSamples res = grouped st"
    by blast
  show ?thesis
    using processLaps_count [OF run, of r] by (simp add: raw initialAlignState_def)
qed

theorem resampleCalibrationLaps_progress_witness:
  "exampleRun = Inr (projr exampleRun)
   \<and> meta_sampleCount (projr exampleRun) = 3
   \<and> length (rawSamples (projr exampleRun) Left ! 1) = 3
   \<and> progress (rawSamples (projr exampleRun) Left ! 1 ! 1) = Some (1 / 2)
   \<and> progress (rawSamples (projr exampleRun) Left ! 0 ! 2) = Some 1"
proof -
  note run = exampleRun_returns [unfolded exampleRun_def]
  note T = resampleCalibrationLaps_progress [OF run, folded exampleRun_def]
  have cnt: "length (rawSamples (projr exampleRun) Left) = 2"
    using resampleCalibrationLaps_raw_count [OF run, of Left]
    by (simp add: exampleRun_def exampleLapA_def exampleLapB_def)
  then have mem: "rawSamples (projr exampleRun) Left ! 0 \<in> set (rawSamples (projr exampleRun) Left)"
    "rawSamples (projr exampleRun) Left ! 1 \<in> set (rawSamples (projr exampleRun) Left)"
    by simp_all
  have size: "meta_sampleCount (projr exampleRun) = 3"
    using T example_gridSize by simp
  from T mem have
    g0: "\<forall>i<meta_sampleCount (projr exampleRun).
           progress (rawSamples (projr exampleRun) Left ! 0 ! i)
             = (if meta_sampleCount (projr exampleRun) = 1 then None
                else Some (real i / (real (meta_sampleCount (projr exampleRun)) - 1)))"
    and g1: "length (rawSamples (projr exampleRun) Left ! 1) = meta_sampleCount (projr exampleRun)"
      "\<forall>i<meta_sampleCount (projr exampleRun).
           progress (rawSamples (projr exampleRun) Left ! 1 ! i)
             = (if meta_sampleCount (projr exampleRun) = 1 then None
                else Some (real i / (real (meta_sampleCount (projr exampleRun)) - 1)))"
    by blast+
  have "progress (rawSamples (projr exampleRun) Left ! 1 ! 1) = Some (1 / 2)"
    using g1(2) [rule_format, of 1] by (simp add: size)
  moreover have "progress (rawSamples (projr exampleRun) Left ! 0 ! 2) = Some 1"
    using g0 [rule_format, of 2] by (simp add: size)
  ultimately show ?thesis
    using exampleRun_returns size g1(1) by simp
qed

section \<open>Properties of the slope clamp\<close>

text \<open>
  Without rounding (\<open>rnd\<close> the identity) the slope clamp settles: the first pass brings
  every sample within the limit of the one before it, the second pass also closes the
  wrap-around pair without moving the last sample, and later passes change nothing.
\<close>

lemma clampTo_near: "0 \<le> L \<Longrightarrow> \<bar>clampTo L p c - p\<bar> \<le> L"
  by (auto simp: clampTo_def)

lemma slopeVisit_result:
  "sl_result (slopeVisit (\<lambda>v. v) L n st i) = visitValues L n (sl_result st) i"
  by (simp add: slopeVisit_def visitValues_def clampTo_def Let_def)

lemma slopeVisit_changed:
  "i < length (sl_result st) \<Longrightarrow>
   sl_changed (slopeVisit (\<lambda>v. v) L n st i)
     \<longleftrightarrow> sl_changed st \<or> \<not> \<bar>sl_result st ! i - sl_result st ! ((i + n - 1) mod n)\<bar> \<le> L"
  by (auto simp: slopeVisit_def Let_def)

lemma slopeVisit_flags_length:
  "length (sl_flags (slopeVisit (\<lambda>v. v) L n st i)) = length (sl_flags st)"
  by (simp add: slopeVisit_def Let_def)

lemma visitValues_length: "length (visitValues L n r i) = length r"
  by (simp add: visitValues_def)

lemma fold_result:
  "sl_result (foldl (slopeVisit (\<lambda>v. v) L n) st idxs) = foldl (visitValues L n) (sl_result st) idxs"
  by (induction idxs arbitrary: st) (simp_all add: slopeVisit_result)

lemma fold_flags_length:
  "length (sl_flags (foldl (slopeVisit (\<lambda>v. v) L n) st idxs)) = length (sl_flags st)"
  by (induction idxs arbitrary: st) (simp_all add: slopeVisit_flags_length)

lemma fold_values_length: "length (foldl (visitValues L n) r idxs) = length r"
  by (induction idxs arbitrary: r) (simp_all add: visitValues_length)

lemma prev_index:
  fixes i n :: nat
  assumes "i < n"
  shows "(i + n - 1) mod n = (if i = 0 then n - 1 else i - 1)"
proof (cases i)
  case 0
  then show ?thesis using assms by simp
next
  case (Suc j)
  then have "i + n - 1 = j + n" by simp
  then show ?thesis using Suc assms by simp
qed

text \<open>After the first k visits: later entries untouched, earlier neighbours within the limit.\<close>

lemma prefix_chain:
  assumes "0 \<le> L" "length r = n" "k \<le> n"
  shows "(\<forall>j. k \<le> j \<and> j < n \<longrightarrow> foldl (visitValues L n) r [0..<k] ! j = r ! j)
       \<and> (\<forall>i. 1 \<le> i \<and> i < k \<longrightarrow>
             \<bar>foldl (visitValues L n) r [0..<k] ! i - foldl (visitValues L n) r [0..<k] ! (i - 1)\<bar> \<le> L)"
  using assms(3)
proof (induction k)
  case 0
  then show ?case by simp
next
  case (Suc k)
  let ?s = "foldl (visitValues L n) r [0..<k]"
  have kn: "k < n" using Suc.prems by simp
  have len: "length ?s = n" by (simp add: fold_values_length assms(2))
  from Suc have IH1: "\<forall>j. k \<le> j \<and> j < n \<longrightarrow> ?s ! j = r ! j"
    and IH2: "\<forall>i. 1 \<le> i \<and> i < k \<longrightarrow> \<bar>?s ! i - ?s ! (i - 1)\<bar> \<le> L"
    by simp_all
  have step: "foldl (visitValues L n) r [0..<Suc k] = visitValues L n ?s k" by simp
  have nth: "visitValues L n ?s k ! j
             = (if j = k then clampTo L (?s ! ((k + n - 1) mod n)) (?s ! k) else ?s ! j)"
    if "j < n" for j
    using that len by (simp add: visitValues_def nth_list_update)
  show ?case
    unfolding step
  proof (intro conjI allI impI)
    fix j assume "Suc k \<le> j \<and> j < n"
    then show "visitValues L n ?s k ! j = r ! j"
      using nth IH1 by simp
  next
    fix i assume i: "1 \<le> i \<and> i < Suc k"
    show "\<bar>visitValues L n ?s k ! i - visitValues L n ?s k ! (i - 1)\<bar> \<le> L"
    proof (cases "i = k")
      case True
      then have pk: "(k + n - 1) mod n = k - 1" using i kn prev_index [of k n] by simp
      have k1: "k - 1 < n" "k - 1 \<noteq> k" using i True kn by auto
      have a: "visitValues L n ?s k ! k = clampTo L (?s ! (k - 1)) (?s ! k)"
        using nth [OF kn] pk by simp
      have b: "visitValues L n ?s k ! (k - 1) = ?s ! (k - 1)"
        using nth [OF k1(1)] k1(2) by simp
      show ?thesis
        unfolding True a b by (rule clampTo_near [OF assms(1)])
    next
      case False
      then have ik: "i < k" "i < n" "i - 1 < n" "i - 1 \<noteq> k" "i \<noteq> k"
        using i kn by auto
      have a: "visitValues L n ?s k ! i = ?s ! i"
        using nth [OF ik(2)] ik(5) by simp
      have b: "visitValues L n ?s k ! (i - 1) = ?s ! (i - 1)"
        using nth [OF ik(3)] ik(4) by simp
      show ?thesis
        unfolding a b using IH2 i ik(1) by simp
    qed
  qed
qed

lemma pass_chainOK:
  assumes "0 \<le> L" "length r = n"
  shows "chainOK L (foldl (visitValues L n) r [0..<n])"
  using prefix_chain [OF assms, of n]
  by (simp add: chainOK_def fold_values_length assms(2))

lemma clampTo_up:
  assumes "0 \<le> L" "\<bar>c - q\<bar> \<le> L" "q \<le> p" "p \<le> max q (a - L)"
  shows "c \<le> clampTo L p c \<and> clampTo L p c \<le> max c (a - L)"
  using assms by (auto simp: clampTo_def max_def split: if_splits)

lemma clampTo_down:
  assumes "0 \<le> L" "\<bar>c - q\<bar> \<le> L" "min q (a + L) \<le> p" "p \<le> q"
  shows "min c (a + L) \<le> clampTo L p c \<and> clampTo L p c \<le> c"
  using assms by (auto simp: clampTo_def min_def split: if_splits)

lemma clampTo_first:
  assumes "0 \<le> L"
  shows "(c \<le> clampTo L a c \<and> clampTo L a c \<le> max c (a - L))
       \<or> (min c (a + L) \<le> clampTo L a c \<and> clampTo L a c \<le> c)"
  using assms by (auto simp: clampTo_def max_def min_def)

lemma prefix_bounds:
  assumes L: "0 \<le> L" and len: "length r = n" and chain: "chainOK L r" and kn: "k \<le> n"
  shows "(1 \<le> k \<longrightarrow> \<bar>foldl (visitValues L n) r [0..<k] ! 0 - r ! (n - 1)\<bar> \<le> L)
       \<and> (upBounds L (r ! (n - 1)) r (foldl (visitValues L n) r [0..<k]) k
          \<or> downBounds L (r ! (n - 1)) r (foldl (visitValues L n) r [0..<k]) k)"
  using kn
proof (induction k)
  case 0
  then show ?case by (simp add: upBounds_def)
next
  case (Suc k)
  let ?s = "foldl (visitValues L n) r [0..<k]"
  let ?a = "r ! (n - 1)"
  have kn: "k < n" using Suc.prems by simp
  have slen: "length ?s = n" by (simp add: fold_values_length len)
  have untouched: "\<forall>j. k \<le> j \<and> j < n \<longrightarrow> ?s ! j = r ! j"
    using prefix_chain [OF L len, of k] kn by simp
  from Suc have IH1: "1 \<le> k \<longrightarrow> \<bar>?s ! 0 - ?a\<bar> \<le> L"
    and IH2: "upBounds L ?a r ?s k \<or> downBounds L ?a r ?s k"
    by simp_all
  have step: "foldl (visitValues L n) r [0..<Suc k] = visitValues L n ?s k" by simp
  have nth: "visitValues L n ?s k ! j
             = (if j = k then clampTo L (?s ! ((k + n - 1) mod n)) (?s ! k) else ?s ! j)"
    if "j < n" for j
    using that slen by (simp add: visitValues_def nth_list_update)
  have cur: "?s ! k = r ! k" using untouched kn by simp
  show ?case
  proof (cases "k = 0")
    case True
    have prev: "?s ! ((k + n - 1) mod n) = ?a"
      using True kn untouched prev_index [of k n] by simp
    have new: "visitValues L n ?s k ! 0 = clampTo L ?a (r ! 0)"
      using nth [of 0] kn True prev cur by simp
    have first: "\<bar>visitValues L n ?s k ! 0 - ?a\<bar> \<le> L"
      unfolding new by (rule clampTo_near [OF L])
    have dir: "upBounds L ?a r (visitValues L n ?s k) (Suc k)
             \<or> downBounds L ?a r (visitValues L n ?s k) (Suc k)"
      using clampTo_first [OF L, of "r ! 0" ?a] new True
      by (auto simp: upBounds_def downBounds_def)
    show ?thesis unfolding step using first dir True by simp
  next
    case False
    then have k1: "1 \<le> k" "k - 1 < k" "k - 1 < n" "0 < n" "0 \<noteq> k" using kn by auto
    have prev: "(k + n - 1) mod n = k - 1"
      using prev_index [of k n] kn False by simp
    have new: "visitValues L n ?s k ! k = clampTo L (?s ! (k - 1)) (r ! k)"
      using nth [OF kn] prev cur by simp
    have old: "visitValues L n ?s k ! j = ?s ! j" if "j < k" for j
      using nth [of j] that kn by simp
    have first: "\<bar>visitValues L n ?s k ! 0 - ?a\<bar> \<le> L"
      using old [of 0] IH1 k1 by simp
    have ch: "\<bar>r ! k - r ! (k - 1)\<bar> \<le> L"
      using chain k1 kn len by (simp add: chainOK_def)
    have dir: "upBounds L ?a r (visitValues L n ?s k) (Suc k)
             \<or> downBounds L ?a r (visitValues L n ?s k) (Suc k)"
      using IH2
    proof
      assume U: "upBounds L ?a r ?s k"
      then have p: "r ! (k - 1) \<le> ?s ! (k - 1)" "?s ! (k - 1) \<le> max (r ! (k - 1)) (?a - L)"
        using k1 by (simp_all add: upBounds_def)
      note c = clampTo_up [OF L ch p]
      have "upBounds L ?a r (visitValues L n ?s k) (Suc k)"
        unfolding upBounds_def
      proof (intro allI impI)
        fix j assume "j < Suc k"
        then consider "j = k" | "j < k" by linarith
        then show "r ! j \<le> visitValues L n ?s k ! j
                 \<and> visitValues L n ?s k ! j \<le> max (r ! j) (?a - L)"
        proof cases
          case 1
          then show ?thesis using c new by simp
        next
          case 2
          then show ?thesis using U old by (simp add: upBounds_def)
        qed
      qed
      then show ?thesis ..
    next
      assume D: "downBounds L ?a r ?s k"
      then have p: "min (r ! (k - 1)) (?a + L) \<le> ?s ! (k - 1)" "?s ! (k - 1) \<le> r ! (k - 1)"
        using k1 by (simp_all add: downBounds_def)
      note c = clampTo_down [OF L ch p]
      have "downBounds L ?a r (visitValues L n ?s k) (Suc k)"
        unfolding downBounds_def
      proof (intro allI impI)
        fix j assume "j < Suc k"
        then consider "j = k" | "j < k" by linarith
        then show "min (r ! j) (?a + L) \<le> visitValues L n ?s k ! j
                 \<and> visitValues L n ?s k ! j \<le> r ! j"
        proof cases
          case 1
          then show ?thesis using c new by simp
        next
          case 2
          then show ?thesis using D old by (simp add: downBounds_def)
        qed
      qed
      then show ?thesis ..
    qed
    show ?thesis unfolding step using first dir by simp
  qed
qed

lemma pass_circOK:
  assumes L: "0 \<le> L" and len: "length r = n" and chain: "chainOK L r"
  shows "circOK L (foldl (visitValues L n) r [0..<n])"
proof (cases "n = 0")
  case True
  then show ?thesis using len by (simp add: circOK_def)
next
  case False
  let ?s = "foldl (visitValues L n) r [0..<n]"
  let ?a = "r ! (n - 1)"
  have n: "0 < n" "n - 1 < n" "1 \<le> n" using False by simp_all
  have slen: "length ?s = n" by (simp add: fold_values_length len)
  note B = prefix_bounds [OF L len chain order_refl]
  have first: "\<bar>?s ! 0 - ?a\<bar> \<le> L" using B n by simp
  have last: "?s ! (n - 1) = ?a"
  proof -
    from B have "upBounds L ?a r ?s n \<or> downBounds L ?a r ?s n" by simp
    then show ?thesis
    proof
      assume "upBounds L ?a r ?s n"
      then have "?a \<le> ?s ! (n - 1) \<and> ?s ! (n - 1) \<le> max ?a (?a - L)"
        using n by (simp add: upBounds_def)
      then show ?thesis using L by (simp add: max_def split: if_splits)
    next
      assume "downBounds L ?a r ?s n"
      then have "min ?a (?a + L) \<le> ?s ! (n - 1) \<and> ?s ! (n - 1) \<le> ?a"
        using n by (simp add: downBounds_def)
      then show ?thesis using L by (simp add: min_def split: if_splits)
    qed
  qed
  have chain': "\<forall>i. 1 \<le> i \<and> i < n \<longrightarrow> \<bar>?s ! i - ?s ! (i - 1)\<bar> \<le> L"
    using prefix_chain [OF L len order_refl] by simp
  show ?thesis
    unfolding circOK_def slen
  proof (intro allI impI)
    fix i assume i: "i < n"
    show "\<bar>?s ! i - ?s ! ((i + n - 1) mod n)\<bar> \<le> L"
    proof (cases "i = 0")
      case True
      then show ?thesis using prev_index [OF i] first last by simp
    next
      case False
      then show ?thesis using prev_index [OF i] chain' i by simp
    qed
  qed
qed

lemma clampTo_within: "\<bar>c - p\<bar> \<le> L \<Longrightarrow> clampTo L p c = c"
  by (auto simp: clampTo_def)

lemma prefix_unchanged:
  assumes len: "length (sl_result st) = n" and kn: "k \<le> n"
    and nc: "\<not> sl_changed (foldl (slopeVisit (\<lambda>v. v) L n) (st\<lparr>sl_changed := False\<rparr>) [0..<k])"
  shows "sl_result (foldl (slopeVisit (\<lambda>v. v) L n) (st\<lparr>sl_changed := False\<rparr>) [0..<k]) = sl_result st
       \<and> (\<forall>i<k. \<bar>sl_result st ! i - sl_result st ! ((i + n - 1) mod n)\<bar> \<le> L)"
  using kn nc
proof (induction k)
  case 0
  then show ?case by simp
next
  case (Suc k)
  let ?s = "foldl (slopeVisit (\<lambda>v. v) L n) (st\<lparr>sl_changed := False\<rparr>) [0..<k]"
  have step: "foldl (slopeVisit (\<lambda>v. v) L n) (st\<lparr>sl_changed := False\<rparr>) [0..<Suc k]
              = slopeVisit (\<lambda>v. v) L n ?s k" by simp
  have slen: "length (sl_result ?s) = n"
    by (simp add: fold_result fold_values_length len)
  have kn: "k < n" using Suc.prems by simp
  from Suc.prems(2) have nc': "\<not> sl_changed (slopeVisit (\<lambda>v. v) L n ?s k)"
    unfolding step .
  then have before: "\<not> sl_changed ?s"
    and near: "\<bar>sl_result ?s ! k - sl_result ?s ! ((k + n - 1) mod n)\<bar> \<le> L"
    using slopeVisit_changed [of k ?s L n] kn slen by auto
  from Suc.IH before kn have same: "sl_result ?s = sl_result st"
    and sofar: "\<forall>i<k. \<bar>sl_result st ! i - sl_result st ! ((i + n - 1) mod n)\<bar> \<le> L"
    by simp_all
  have "sl_result (slopeVisit (\<lambda>v. v) L n ?s k) = sl_result ?s"
    using near by (simp add: slopeVisit_result visitValues_def clampTo_within)
  then show ?case
    unfolding step using same sofar near by (auto simp: less_Suc_eq)
qed

lemma slopePass_result:
  "sl_result (slopePass (\<lambda>v. v) L n st) = foldl (visitValues L n) (sl_result st) [0..<n]"
  by (simp add: slopePass_def fold_result)

lemma slopePass_unchanged:
  assumes "length (sl_result st) = n" "\<not> sl_changed (slopePass (\<lambda>v. v) L n st)"
  shows "circOK L (sl_result (slopePass (\<lambda>v. v) L n st))"
  using prefix_unchanged [OF assms(1) order_refl, of L] assms
  by (simp add: slopePass_def circOK_def)

lemma slopeLoop_circOK:
  assumes "0 \<le> L"
    and "length (sl_result st) = n"
    and "\<not> sl_changed st \<longrightarrow> circOK L (sl_result st)"
    and "1 \<le> iterations \<longrightarrow> chainOK L (sl_result st)"
    and "2 \<le> iterations \<longrightarrow> circOK L (sl_result st)"
  shows "circOK L (sl_result (slopeLoop (\<lambda>v. v) L n iterations st))
       \<and> length (sl_result (slopeLoop (\<lambda>v. v) L n iterations st)) = n"
  using assms
proof (induction "n * 2 - iterations" arbitrary: iterations st rule: less_induct)
  case less
  show ?case
  proof (cases "sl_changed st \<and> iterations < n * 2")
    case True
    let ?st' = "slopePass (\<lambda>v. v) L n st"
    have len': "length (sl_result ?st') = n"
      by (simp add: slopePass_result fold_values_length less.prems(2))
    have a: "\<not> sl_changed ?st' \<longrightarrow> circOK L (sl_result ?st')"
      using slopePass_unchanged [OF less.prems(2)] by simp
    have b: "1 \<le> iterations + 1 \<longrightarrow> chainOK L (sl_result ?st')"
      using pass_chainOK [OF less.prems(1,2)] by (simp add: slopePass_result)
    have c: "2 \<le> iterations + 1 \<longrightarrow> circOK L (sl_result ?st')"
      using pass_circOK [OF less.prems(1,2)] less.prems(4) by (simp add: slopePass_result)
    have unfold: "slopeLoop (\<lambda>v. v) L n iterations st = slopeLoop (\<lambda>v. v) L n (iterations + 1) ?st'"
      using True by (subst slopeLoop.simps) auto
    show ?thesis
      unfolding unfold
    proof (rule less.hyps [OF _ less.prems(1) len' a b c])
      show "n * 2 - (iterations + 1) < n * 2 - iterations" using True by linarith
    qed
  next
    case False
    have unfold: "slopeLoop (\<lambda>v. v) L n iterations st = st"
      using False by (subst slopeLoop.simps) auto
    have "circOK L (sl_result st)"
    proof (cases "sl_changed st")
      case False
      then show ?thesis using less.prems(3) by simp
    next
      case True
      then have big: "n * 2 \<le> iterations" using False by simp
      show ?thesis
      proof (cases "n = 0")
        case True
        then show ?thesis using less.prems(2) by (simp add: circOK_def)
      next
        case False
        then have "2 \<le> iterations" using big by simp
        then show ?thesis using less.prems(5) by simp
      qed
    qed
    then show ?thesis unfolding unfold using less.prems(2) by simp
  qed
qed

lemma applySlopeClamp_circOK:
  assumes "0 \<le> L"
  shows "circOK L (clamp_values (applySlopeClamp (\<lambda>v. v) vals L))
       \<and> length (clamp_values (applySlopeClamp (\<lambda>v. v) vals L)) = length vals"
  using slopeLoop_circOK [OF assms, of
      "\<lparr>sl_result = vals, sl_flags = replicate (length vals) False, sl_changed = True\<rparr>"
      "length vals" 0]
  by (simp add: applySlopeClamp_def Let_def)

lemma clampWidthDeltas_fields:
  "wd_halfWidthLeft (clampWidthDeltas (\<lambda>v. v) hl hr sp m sl)
     = clamp_values (applySlopeClamp (\<lambda>v. v) hl (wd_perSampleLimit (clampWidthDeltas (\<lambda>v. v) hl hr sp m sl)))"
  "wd_halfWidthRight (clampWidthDeltas (\<lambda>v. v) hl hr sp m sl)
     = clamp_values (applySlopeClamp (\<lambda>v. v) hr (wd_perSampleLimit (clampWidthDeltas (\<lambda>v. v) hl hr sp m sl)))"
  by (simp_all add: clampWidthDeltas_def Let_def)

text \<open>
  In exact arithmetic and for a positive per-sample limit, both arrays returned keep their
  lengths and every sample differs from its circular predecessor by at most the limit.
\<close>

lemma clampWidthDeltas_exact_bounded:
  assumes "0 < wd_perSampleLimit
                 (clampWidthDeltas (\<lambda>v. v) halfWidthLeft halfWidthRight spacingMeters maxDeltaPer10m
                    sectorLength)"
  shows
    "let out = clampWidthDeltas (\<lambda>v. v) halfWidthLeft halfWidthRight spacingMeters maxDeltaPer10m
                 sectorLength;
         nl = length halfWidthLeft;
         nr = length halfWidthRight
     in length (wd_halfWidthLeft out) = nl
        \<and> length (wd_halfWidthRight out) = nr
        \<and> (\<forall>i<nl. \<bar>wd_halfWidthLeft out ! i - wd_halfWidthLeft out ! ((i + nl - 1) mod nl)\<bar>
                    \<le> wd_perSampleLimit out)
        \<and> (\<forall>i<nr. \<bar>wd_halfWidthRight out ! i - wd_halfWidthRight out ! ((i + nr - 1) mod nr)\<bar>
                    \<le> wd_perSampleLimit out)"
proof -
  define out where
    "out = clampWidthDeltas (\<lambda>v. v) halfWidthLeft halfWidthRight spacingMeters maxDeltaPer10m sectorLength"
  have L: "0 \<le> wd_perSampleLimit out" using assms by (simp add: out_def)
  have fl: "wd_halfWidthLeft out
            = clamp_values (applySlopeClamp (\<lambda>v. v) halfWidthLeft (wd_perSampleLimit out))"
    and fr: "wd_halfWidthRight out
            = clamp_values (applySlopeClamp (\<lambda>v. v) halfWidthRight (wd_perSampleLimit out))"
    unfolding out_def by (rule clampWidthDeltas_fields)+
  from applySlopeClamp_circOK [OF L, of halfWidthLeft]
  have cl: "circOK (wd_perSampleLimit out) (wd_halfWidthLeft out)"
    and ll: "length (wd_halfWidthLeft out) = length halfWidthLeft"
    unfolding fl by simp_all
  from applySlopeClamp_circOK [OF L, of halfWidthRight]
  have cr: "circOK (wd_perSampleLimit out) (wd_halfWidthRight out)"
    and lr: "length (wd_halfWidthRight out) = length halfWidthRight"
    unfolding fr by simp_all
  show ?thesis
    unfolding Let_def out_def [symmetric]
    using cl cr ll lr unfolding circOK_def by simp
qed

text \<open>Evaluation of the rounding on numerals.\<close>

lemma normalise_numeral:
  "normalise (numeral k) m u =
     (if m < 2 ^ 52 then normalise (pred_numeral k) (m * 2) (u / 2)
      else if 2 ^ 53 \<le> m then normalise (pred_numeral k) (m / 2) (u * 2)
      else (m, u))"
  by (simp add: numeral_eq_Suc)

lemma upt_3: "[0..<3] = [0, 1, 2]"
  by (simp add: upt_rec)

lemma rounded_fifth: "float64 (1 / 5) = 3602879701896397 / 18014398509481984"
  by (simp add: float64_def normalise_numeral roundHalfEven_def Let_def)

lemma rounded_limit: "float64 (float64 (1 / 10) * max 1 (float64 (1 / 10 ^ 3))) = 3602879701896397 / 36028797018963968"
proof -
  have t: "float64 (1 / 10) = 3602879701896397 / 36028797018963968"
    by (simp add: float64_def normalise_numeral roundHalfEven_def Let_def)
  have m: "float64 (1 / 10 ^ 3) = 1152921504606847 / 1152921504606846976"
    by (simp add: float64_def normalise_numeral roundHalfEven_def Let_def)
  have i: "float64 (3602879701896397 / 36028797018963968) = 3602879701896397 / 36028797018963968"
    by (simp add: float64_def normalise_numeral roundHalfEven_def Let_def)
  show ?thesis
    unfolding t m by (simp add: i)
qed

lemma first_pass_visit0:
  "slopeVisit float64 (3602879701896397 / 36028797018963968) 3
     \<lparr>sl_result = [3602879701896397 / 18014398509481984, 5, 3602879701896397 / 18014398509481984], sl_flags = [False, False, False], sl_changed = False\<rparr> 0
   = \<lparr>sl_result = [3602879701896397 / 18014398509481984, 5, 3602879701896397 / 18014398509481984], sl_flags = [False, False, False], sl_changed = False\<rparr>"
  by (simp add: slopeVisit_def float64_def normalise_numeral roundHalfEven_def Let_def)

lemma first_pass_visit1:
  "slopeVisit float64 (3602879701896397 / 36028797018963968) 3
     \<lparr>sl_result = [3602879701896397 / 18014398509481984, 5, 3602879701896397 / 18014398509481984], sl_flags = [False, False, False], sl_changed = False\<rparr> (Suc 0)
   = \<lparr>sl_result = [3602879701896397 / 18014398509481984, 1351079888211149 / 4503599627370496, 3602879701896397 / 18014398509481984], sl_flags = [False, True, False], sl_changed = True\<rparr>"
  by (simp add: slopeVisit_def float64_def normalise_numeral roundHalfEven_def Let_def)

lemma first_pass_visit2:
  "slopeVisit float64 (3602879701896397 / 36028797018963968) 3
     \<lparr>sl_result = [3602879701896397 / 18014398509481984, 1351079888211149 / 4503599627370496, 3602879701896397 / 18014398509481984], sl_flags = [False, True, False], sl_changed = True\<rparr> 2
   = \<lparr>sl_result = [3602879701896397 / 18014398509481984, 1351079888211149 / 4503599627370496, 7205759403792795 / 36028797018963968], sl_flags = [False, True, True], sl_changed = True\<rparr>"
  by (simp add: slopeVisit_def float64_def normalise_numeral roundHalfEven_def Let_def)

lemma later_pass_visit0:
  "slopeVisit float64 (3602879701896397 / 36028797018963968) 3
     \<lparr>sl_result = [3602879701896397 / 18014398509481984, 1351079888211149 / 4503599627370496, 7205759403792795 / 36028797018963968], sl_flags = [False, True, True], sl_changed = False\<rparr> 0
   = \<lparr>sl_result = [3602879701896397 / 18014398509481984, 1351079888211149 / 4503599627370496, 7205759403792795 / 36028797018963968], sl_flags = [False, True, True], sl_changed = False\<rparr>"
  by (simp add: slopeVisit_def float64_def normalise_numeral roundHalfEven_def Let_def)

lemma later_pass_visit1:
  "slopeVisit float64 (3602879701896397 / 36028797018963968) 3
     \<lparr>sl_result = [3602879701896397 / 18014398509481984, 1351079888211149 / 4503599627370496, 7205759403792795 / 36028797018963968], sl_flags = [False, True, True], sl_changed = False\<rparr> (Suc 0)
   = \<lparr>sl_result = [3602879701896397 / 18014398509481984, 1351079888211149 / 4503599627370496, 7205759403792795 / 36028797018963968], sl_flags = [False, True, True], sl_changed = True\<rparr>"
  by (simp add: slopeVisit_def float64_def normalise_numeral roundHalfEven_def Let_def)

lemma later_pass_visit2:
  "slopeVisit float64 (3602879701896397 / 36028797018963968) 3
     \<lparr>sl_result = [3602879701896397 / 18014398509481984, 1351079888211149 / 4503599627370496, 7205759403792795 / 36028797018963968], sl_flags = [False, True, True], sl_changed = True\<rparr> 2
   = \<lparr>sl_result = [3602879701896397 / 18014398509481984, 1351079888211149 / 4503599627370496, 7205759403792795 / 36028797018963968], sl_flags = [False, True, True], sl_changed = True\<rparr>"
  by (simp add: slopeVisit_def float64_def normalise_numeral roundHalfEven_def Let_def)

lemma first_pass:
  "slopePass float64 (3602879701896397 / 36028797018963968) 3
     \<lparr>sl_result = [3602879701896397 / 18014398509481984, 5, 3602879701896397 / 18014398509481984], sl_flags = [False, False, False], sl_changed = True\<rparr>
   = \<lparr>sl_result = [3602879701896397 / 18014398509481984, 1351079888211149 / 4503599627370496, 7205759403792795 / 36028797018963968], sl_flags = [False, True, True], sl_changed = True\<rparr>"
  by (simp add: slopePass_def upt_3 first_pass_visit0 first_pass_visit1 first_pass_visit2)

lemma later_pass:
  "slopePass float64 (3602879701896397 / 36028797018963968) 3
     \<lparr>sl_result = [3602879701896397 / 18014398509481984, 1351079888211149 / 4503599627370496, 7205759403792795 / 36028797018963968], sl_flags = [False, True, True], sl_changed = True\<rparr>
   = \<lparr>sl_result = [3602879701896397 / 18014398509481984, 1351079888211149 / 4503599627370496, 7205759403792795 / 36028797018963968], sl_flags = [False, True, True], sl_changed = True\<rparr>"
  by (simp add: slopePass_def upt_3 later_pass_visit0 later_pass_visit1 later_pass_visit2)

lemma slopeLoop_step:
  "sl_changed st \<Longrightarrow> k < n * 2 \<Longrightarrow>
   slopeLoop rnd L n k st = slopeLoop rnd L n (Suc k) (slopePass rnd L n st)"
  by (subst slopeLoop.simps) simp

lemma slopeLoop_stop:
  "\<not> (sl_changed st \<and> k < n * 2) \<Longrightarrow> slopeLoop rnd L n k st = st"
  by (subst slopeLoop.simps) auto

lemma rounded_loop:
  "slopeLoop float64 (3602879701896397 / 36028797018963968) 3 0
     \<lparr>sl_result = [3602879701896397 / 18014398509481984, 5, 3602879701896397 / 18014398509481984], sl_flags = [False, False, False], sl_changed = True\<rparr>
   = \<lparr>sl_result = [3602879701896397 / 18014398509481984, 1351079888211149 / 4503599627370496, 7205759403792795 / 36028797018963968], sl_flags = [False, True, True], sl_changed = True\<rparr>"
proof -
  let ?S = "\<lparr>sl_result = [3602879701896397 / 18014398509481984, 1351079888211149 / 4503599627370496, 7205759403792795 / 36028797018963968], sl_flags = [False, True, True], sl_changed = True\<rparr>"
  have l6: "slopeLoop float64 (3602879701896397 / 36028797018963968) 3 (Suc (Suc (Suc (Suc (Suc (Suc 0)))))) ?S = ?S"
    by (rule slopeLoop_stop) simp
  have l5: "slopeLoop float64 (3602879701896397 / 36028797018963968) 3 (Suc (Suc (Suc (Suc (Suc 0))))) ?S = ?S"
    by (subst slopeLoop_step) (simp_all add: later_pass l6)
  have l4: "slopeLoop float64 (3602879701896397 / 36028797018963968) 3 (Suc (Suc (Suc (Suc 0)))) ?S = ?S"
    by (subst slopeLoop_step) (simp_all add: later_pass l5)
  have l3: "slopeLoop float64 (3602879701896397 / 36028797018963968) 3 (Suc (Suc (Suc 0))) ?S = ?S"
    by (subst slopeLoop_step) (simp_all add: later_pass l4)
  have l2: "slopeLoop float64 (3602879701896397 / 36028797018963968) 3 (Suc (Suc 0)) ?S = ?S"
    by (subst slopeLoop_step) (simp_all add: later_pass l3)
  have l1: "slopeLoop float64 (3602879701896397 / 36028797018963968) 3 (Suc 0) ?S = ?S"
    by (subst slopeLoop_step) (simp_all add: later_pass l2)
  show ?thesis
    by (subst slopeLoop_step) (simp_all add: first_pass l1)
qed

text \<open>
  C2: after \<open>clampWidthDeltas\<close> every sample should differ from its circular
  predecessor by at most the per-sample limit. In double precision the code does not achieve
  this. For the widths \<open>[0.2, 5, 0.2]\<close> and the limit 0.1 the sum \<open>0.2 + 0.1\<close> rounds to
  \<open>0.30000000000000004\<close>, whose distance from 0.2 is above the limit again; every pass
  rewrites the same value, the loop stops at its cap of \<open>2 * n\<close> passes, and the array
  returned is \<open>[0.2, 0.30000000000000004, 0.20000000000000004]\<close>, its second sample above
  the first by more than the limit. The limit and the samples are stated as the exact values
  of the doubles.
\<close>

theorem clampWidthDeltas_rounding_violation:
  "wd_perSampleLimit exampleRoundedClamp = 3602879701896397 / 36028797018963968
   \<and> wd_halfWidthLeft exampleRoundedClamp
       = [3602879701896397 / 18014398509481984,
          1351079888211149 / 4503599627370496,
          7205759403792795 / 36028797018963968]
   \<and> \<bar>wd_halfWidthLeft exampleRoundedClamp ! 1 - wd_halfWidthLeft exampleRoundedClamp ! 0\<bar>
       > wd_perSampleLimit exampleRoundedClamp"
proof -
  have limit: "wd_perSampleLimit exampleRoundedClamp = 3602879701896397 / 36028797018963968"
    unfolding exampleRoundedClamp_def clampWidthDeltas_def Let_def rounded_limit
    by simp
  have vals: "wd_halfWidthLeft exampleRoundedClamp
       = [3602879701896397 / 18014398509481984,
          1351079888211149 / 4503599627370496,
          7205759403792795 / 36028797018963968]"
  proof -
    have n: "length [3602879701896397 / 18014398509481984, 5, 3602879701896397 / 18014398509481984 :: real] = 3"
      by simp
    have flags: "replicate 3 False = [False, False, False]"
      by (simp add: numeral_3_eq_3)
    have "clamp_values (applySlopeClamp float64 [3602879701896397 / 18014398509481984, 5, 3602879701896397 / 18014398509481984] (3602879701896397 / 36028797018963968))
          = [3602879701896397 / 18014398509481984,
             1351079888211149 / 4503599627370496,
             7205759403792795 / 36028797018963968]"
      unfolding applySlopeClamp_def Let_def n flags rounded_loop by simp
    then show ?thesis
      unfolding exampleRoundedClamp_def clampWidthDeltas_def Let_def rounded_limit rounded_fifth
      by simp
  qed
  show ?thesis
    unfolding limit vals by simp
qed

section \<open>Properties of the heading alignment\<close>
































end
